theory Spec2Isabelle
  imports Main "HOL-Library.Char_ord" "HOL-Library.List_Lexorder" "HOL-Library.Product_Lexorder"
    "HOL-Library.Multiset"
begin

section \<open>Events\<close>

text \<open>
  An \<open>m::event\<close> is a JSON tuple with typed field accessors. Only the fields read by
  the functions below are kept. A string field that is absent reads as the empty string
  (\<open>json::get\<close> yields an empty \<open>string_view\<close>, which converts to \<open>false\<close>);
  \<open>signatures\<close> is read with \<open>at\<close>, which throws when the field is undefined, so it is
  an option. The signatures object maps a server name to an object mapping a key id to a
  signature; both are kept as association lists in member order.
\<close>

record event =
  ev_event_id :: string
  ev_origin :: string
  ev_sender :: string
  ev_depth :: int
  ev_origin_server_ts :: int
  ev_signatures :: "(string \<times> (string \<times> string) list) list option"

section \<open>The registry of live evaluations (vm\_eval.cc)\<close>

text \<open>
  \<open>eval::list\<close> is the instance list of all live \<open>eval\<close> objects, in construction
  order. An \<open>eval\<close> is identified by its address; the model uses the \<open>id\<close> (field
  \<open>eval_id\<close>) drawn from the process-wide counter \<open>id_ctr\<close> as that address, and
  \<open>parent\<close>/\<open>child\<close> pointers are optional ids. No pointer of a live eval names an
  eval that is not live (shown below), so the reuse of addresses plays no part.
  \<open>event_\<close> (field \<open>eval_event\<close>) and \<open>issue\<close> are nullable pointers, hence
  options; \<open>issue\<close> is a \<open>json::iov\<close>, a list of members. \<open>sequence\<close> is what
  \<open>sequence::get\<close> reads; \<open>event_id\<close> is the field \<open>eval_event_id\<close>.
\<close>

record eval =
  eval_id :: nat
  ctx :: nat
  sequence :: nat
  parent :: "nat option"
  child :: "nat option"
  eval_event :: "event option"
  issue :: "(string \<times> string) list option"
  eval_event_id :: string
  pdus :: "event list"

subsection \<open>std::min\_element and std::max\_element\<close>

text \<open>
  \<open>std::min_element(first, last, comp)\<close> keeps the first iterator and replaces it by a
  later one \<open>i\<close> whenever \<open>comp(*i, *smallest)\<close>; \<open>std::max_element\<close> replaces
  whenever \<open>comp(*largest, *i)\<close>. On an empty range both return \<open>last\<close>.
\<close>

fun min_element :: "('a \<Rightarrow> 'a \<Rightarrow> bool) \<Rightarrow> 'a list \<Rightarrow> 'a option" where
  "min_element cmp [] = None"
| "min_element cmp (x # xs) =
     Some (foldl (\<lambda>smallest i. if cmp i smallest then i else smallest) x xs)"

fun max_element :: "('a \<Rightarrow> 'a \<Rightarrow> bool) \<Rightarrow> 'a list \<Rightarrow> 'a option" where
  "max_element cmp [] = None"
| "max_element cmp (x # xs) =
     Some (foldl (\<lambda>largest i. if cmp largest i then i else largest) x xs)"

subsection \<open>seqmin, seqmax\<close>

definition seqmin_comp :: "eval \<Rightarrow> eval \<Rightarrow> bool" where
  "seqmin_comp a b =
     (if sequence a = 0 then False
      else if sequence b = 0 then True
      else sequence a < sequence b)"

definition seqmin :: "eval list \<Rightarrow> eval option" where
  "seqmin list =
     (case min_element seqmin_comp list of
        None \<Rightarrow> None
      | Some it \<Rightarrow> if sequence it = 0 then None else Some it)"

definition seqmax_comp :: "eval \<Rightarrow> eval \<Rightarrow> bool" where
  "seqmax_comp a b = (sequence a < sequence b)"

definition seqmax :: "eval list \<Rightarrow> eval option" where
  "seqmax list =
     (case max_element seqmax_comp list of
        None \<Rightarrow> None
      | Some it \<Rightarrow> if sequence it = 0 then None else Some it)"

subsection \<open>find, get\<close>

text \<open>
  The closure of \<open>eval::find\<close>: it tests exactly one of the three fields, chosen by the
  \<open>if\<close>/\<open>else if\<close> chain, and \<open>for_each\<close> stops at the first eval for which the
  closure has set \<open>ret\<close>.
\<close>

definition find_closure :: "string \<Rightarrow> eval \<Rightarrow> bool" where
  "find_closure eid e =
     (case eval_event e of
        Some ev \<Rightarrow> ev_event_id ev = eid
      | None \<Rightarrow>
         (case issue e of
            Some iov \<Rightarrow>
              (case map_of iov ''event_id'' of
                 Some v \<Rightarrow> v = eid
               | None \<Rightarrow> False)
          | None \<Rightarrow> eval_event_id e = eid))"

fun find_eval :: "eval list \<Rightarrow> string \<Rightarrow> eval option" where
  "find_eval [] eid = None"
| "find_eval (e # es) eid = (if find_closure eid e then Some e else find_eval es eid)"

datatype eval_error = out_of_range

text \<open>
  \<open>eval::get\<close> reads the registry through \<open>find\<close> and either throws or returns the
  eval found. The registry is returned next to the result, as the state after the call.
\<close>

definition get_eval :: "eval list \<Rightarrow> string \<Rightarrow> (eval_error + eval) \<times> eval list" where
  "get_eval list eid =
     (case find_eval list eid of
        None \<Rightarrow> (Inl out_of_range, list)
      | Some ret \<Rightarrow> (Inr ret, list))"

text \<open>
  The matching rule in the specification's words: an eval matches when (a) its in-flight
  event body's id equals the id sought, or (b) its injection payload has an \<open>event_id\<close>
  field equal to it, or (c) its one-event-id shortcut field equals it.
\<close>

definition spec_matches :: "string \<Rightarrow> eval \<Rightarrow> bool" where
  "spec_matches eid e =
     ((case eval_event e of Some ev \<Rightarrow> ev_event_id ev = eid | None \<Rightarrow> False) \<or>
      (case issue e of Some iov \<Rightarrow> map_of iov ''event_id'' = Some eid | None \<Rightarrow> False) \<or>
      eval_event_id e = eid)"

text \<open>
  The matching rule with the precedence of the \<open>if\<close>/\<open>else if\<close> chain written out:
  the injection payload is consulted only without an event body, the shortcut field only
  without both.
\<close>

definition first_present_matches :: "string \<Rightarrow> eval \<Rightarrow> bool" where
  "first_present_matches eid e =
     ((case eval_event e of Some ev \<Rightarrow> ev_event_id ev = eid | None \<Rightarrow> False) \<or>
      (eval_event e = None \<and>
         (case issue e of Some iov \<Rightarrow> map_of iov ''event_id'' = Some eid | None \<Rightarrow> False)) \<or>
      (eval_event e = None \<and> issue e = None \<and> eval_event_id e = eid))"

subsection \<open>find\_parent, construction and destruction\<close>

text \<open>
  The registry state: the instance list and the counter \<open>id_ctr\<close>.
\<close>

record registry =
  eval_list :: "eval list"
  id_ctr :: nat

definition empty_registry :: registry where
  "empty_registry = \<lparr>eval_list = [], id_ctr = 0\<rparr>"

text \<open>
  \<open>for_each(&c, closure)\<close> visits the evals of task \<open>c\<close> in list order; the closure
  of \<open>find_parent\<close> keeps the eval with the highest id that is not \<open>a\<close> itself
  (\<open>a\<close> is compared by address).
\<close>

definition find_parent_closure :: "nat \<Rightarrow> eval option \<Rightarrow> eval \<Rightarrow> eval option" where
  "find_parent_closure a ret e =
     (if eval_id e \<noteq> a \<and> (case ret of None \<Rightarrow> True | Some r \<Rightarrow> eval_id r < eval_id e)
      then Some e else ret)"

definition find_parent :: "eval list \<Rightarrow> nat \<Rightarrow> nat \<Rightarrow> eval option" where
  "find_parent list a c =
     foldl (find_parent_closure a) None (filter (\<lambda>e. ctx e = c) list)"

datatype vm_fault = assertion_failed | invalid_pointer

definition set_child :: "nat \<Rightarrow> nat option \<Rightarrow> eval list \<Rightarrow> eval list" where
  "set_child p v list = map (\<lambda>e. if eval_id e = p then e\<lparr>child := v\<rparr> else e) list"

definition lookup_eval :: "eval list \<Rightarrow> nat \<Rightarrow> eval option" where
  "lookup_eval list a = List.find (\<lambda>e. eval_id e = a) list"

text \<open>
  \<open>eval::eval(const vm::opts &)\<close>, run by task \<open>c\<close>. The instance-list base links the
  new object at the end of the list before the members are initialised; the members'
  default initialisers are in the class declaration, which is not among the sources.
  Modelled from the spec: \<open>id\<close> is a monotonic per-process counter assigned at
  construction (\<open>++id_ctr\<close>), \<open>sequence\<close> is 0 until commit, \<open>ctx\<close> is the executing
  task and \<open>child\<close> starts null. The constructor then snapshots \<open>find_parent(*this)\<close>
  and, when there is a parent, asserts that it has no child and installs itself.
\<close>

definition eval_construct :: "registry \<Rightarrow> nat \<Rightarrow> vm_fault + registry" where
  "eval_construct reg c =
     (let i = id_ctr reg + 1;
          self = \<lparr>eval_id = i, ctx = c, sequence = 0, parent = None, child = None,
                  eval_event = None, issue = None, eval_event_id = [], pdus = []\<rparr>;
          list' = eval_list reg @ [self]
      in case find_parent list' i c of
           None \<Rightarrow> Inr \<lparr>eval_list = list', id_ctr = i\<rparr>
         | Some pe \<Rightarrow>
             if child pe \<noteq> None then Inl assertion_failed
             else Inr \<lparr>eval_list =
                         set_child (eval_id pe) (Some i)
                           (eval_list reg @ [self\<lparr>parent := Some (eval_id pe)\<rparr>]),
                       id_ctr = i\<rparr>)"

text \<open>
  \<open>eval::~eval\<close> for the live eval at address \<open>a\<close>, followed by the instance-list
  base unlinking it. Destroying an object that is not live, or following a parent pointer
  to an object that is not live, has no defined behaviour and is a fault of the model.
\<close>

definition eval_destruct :: "registry \<Rightarrow> nat \<Rightarrow> vm_fault + registry" where
  "eval_destruct reg a =
     (case lookup_eval (eval_list reg) a of
        None \<Rightarrow> Inl invalid_pointer
      | Some self \<Rightarrow>
          if child self \<noteq> None then Inl assertion_failed
          else
            (case parent self of
               None \<Rightarrow> Inr (reg\<lparr>eval_list := filter (\<lambda>e. eval_id e \<noteq> a) (eval_list reg)\<rparr>)
             | Some p \<Rightarrow>
                 (case lookup_eval (eval_list reg) p of
                    None \<Rightarrow> Inl invalid_pointer
                  | Some pe \<Rightarrow>
                      if child pe \<noteq> Some a then Inl assertion_failed
                      else Inr (reg\<lparr>eval_list :=
                                  filter (\<lambda>e. eval_id e \<noteq> a)
                                    (set_child p None (eval_list reg))\<rparr>))))"

text \<open>Sequences of constructions and destructions, stopping at the first fault.\<close>

datatype eval_op = Construct nat | Destruct nat

fun apply_eval_op :: "registry \<Rightarrow> eval_op \<Rightarrow> vm_fault + registry" where
  "apply_eval_op reg (Construct c) = eval_construct reg c"
| "apply_eval_op reg (Destruct a) = eval_destruct reg a"

fun run_eval_ops :: "registry \<Rightarrow> eval_op list \<Rightarrow> vm_fault + registry" where
  "run_eval_ops reg [] = Inr reg"
| "run_eval_ops reg (x # xs) =
     (case apply_eval_op reg x of Inl f \<Rightarrow> Inl f | Inr reg' \<Rightarrow> run_eval_ops reg' xs)"

text \<open>An eval is the innermost of its task when no live eval of that task has a higher id.\<close>

definition innermost :: "eval list \<Rightarrow> eval \<Rightarrow> bool" where
  "innermost list e = (\<forall>e' \<in> set list. ctx e' = ctx e \<longrightarrow> eval_id e' \<le> eval_id e)"

text \<open>
  The invariant that the proofs carry: ids are distinct and bounded by the counter, a
  child is a live, later eval of the same task that names its parent, and a parent is
  live and names the eval as its child.
\<close>

definition registry_wf :: "registry \<Rightarrow> bool" where
  "registry_wf reg =
     (distinct (map eval_id (eval_list reg)) \<and>
      (\<forall>e \<in> set (eval_list reg). eval_id e \<le> id_ctr reg) \<and>
      (\<forall>e \<in> set (eval_list reg). \<forall>c. child e = Some c \<longrightarrow>
          (\<exists>ce \<in> set (eval_list reg). eval_id ce = c \<and> parent ce = Some (eval_id e) \<and>
              ctx ce = ctx e \<and> eval_id e < c)) \<and>
      (\<forall>e \<in> set (eval_list reg). \<forall>p. parent e = Some p \<longrightarrow>
          (\<exists>pe \<in> set (eval_list reg). eval_id pe = p \<and> child pe = Some (eval_id e))))"

subsection \<open>Batch construction\<close>

text \<open>The fields of \<open>vm::opts\<close> read by the functions modelled here.\<close>

record opts =
  limit :: nat
  ordered :: bool
  node_id :: string

text \<open>
  Modelled from the spec: \<open>operator<\<close> on \<open>m::event\<close>, which \<open>std::sort\<close> uses,
  is not among the sources. The specification gives the order: primary key \<open>depth\<close>,
  tie-break on \<open>origin_server_ts\<close>, then \<open>event_id\<close> lexicographic. The key triple
  is compared lexicographically; strings compare bytewise.
\<close>

definition event_key :: "event \<Rightarrow> int \<times> int \<times> string" where
  "event_key e = (ev_depth e, ev_origin_server_ts e, ev_event_id e)"

definition event_less :: "event \<Rightarrow> event \<Rightarrow> bool" where
  "event_less a b = (event_key a < event_key b)"

text \<open>
  \<open>std::sort(begin(events), end(events))\<close>: some sorted permutation under
  \<open>operator<\<close>. The order it leaves between events with equal keys is unspecified;
  the model keeps their input order.
\<close>

definition std_sort_events :: "event list \<Rightarrow> event list" where
  "std_sort_events events = sort_key event_key events"

text \<open>
  \<open>eval::eval(const json::array &pdus, const vm::opts &opts)\<close>: the vector that the
  constructor hands to \<open>execute\<close>, from the events of the array. \<open>resize\<close> to a
  smaller size keeps the leading elements.
\<close>

definition eval_batch :: "opts \<Rightarrow> event list \<Rightarrow> event list" where
  "eval_batch opts array =
     (let events = array;
          events = (if length events > limit opts then take (limit opts) events else events);
          events = (if \<not> ordered opts then std_sort_events events else events)
      in events)"

subsection \<open>mfetch\_keys\<close>

datatype m_error = json_not_found | INVALID_MXID

text \<open>
  Modelled from the spec: \<open>m::user::id\<close> and its \<open>host()\<close> are not among the sources.
  A sender is a user id of the form \<open>@local:host\<close>; constructing the id from a string
  of another form throws, and the host is what follows the first colon.
\<close>

definition user_id_host :: "string \<Rightarrow> m_error + string" where
  "user_id_host s =
     (if s \<noteq> [] \<and> hd s = CHR ''@'' \<and> CHR '':'' \<in> set s
      then Inr (tl (dropWhile (\<lambda>c. c \<noteq> CHR '':'') s))
      else Inl INVALID_MXID)"

text \<open>
  The origin of an event as \<open>mfetch_keys\<close> computes it: the \<open>origin\<close> field when it
  is set, the host of the sender otherwise.
\<close>

definition event_origin :: "event \<Rightarrow> m_error + string" where
  "event_origin e = (if ev_origin e \<noteq> [] then Inr (ev_origin e) else user_id_host (ev_sender e))"

text \<open>
  \<open>std::set<server_key>::emplace\<close> on the set kept as a sorted list without
  repetition; a \<open>server_key\<close> is the pair of a server name and a key id.
\<close>

definition set_emplace :: "'a::linorder \<Rightarrow> 'a list \<Rightarrow> 'a list" where
  "set_emplace k ks = (if k \<in> set ks then ks else insort k ks)"

text \<open>
  The body of the loop over \<open>this->pdus\<close>. \<open>cache_has\<close> stands for
  \<open>m::keys::cache::has\<close>. An event of another origin than a set \<open>node_id\<close> is skipped
  before its signatures are read.
\<close>

definition mfetch_keys_event ::
  "(string \<Rightarrow> string \<Rightarrow> bool) \<Rightarrow> opts \<Rightarrow> (string \<times> string) list \<Rightarrow> event
     \<Rightarrow> m_error + (string \<times> string) list" where
  "mfetch_keys_event cache_has opts miss e =
     (case event_origin e of
        Inl err \<Rightarrow> Inl err
      | Inr origin \<Rightarrow>
          if node_id opts \<noteq> [] \<and> node_id opts \<noteq> origin then Inr miss
          else
            (case ev_signatures e of
               None \<Rightarrow> Inl json_not_found
             | Some sigs \<Rightarrow>
                 Inr (foldl (\<lambda>m (server_name, signatures).
                        foldl (\<lambda>m (key_id, signature).
                                 if \<not> cache_has origin key_id
                                 then set_emplace (origin, key_id) m else m)
                          m signatures)
                      miss sigs)))"

fun mfetch_keys_miss ::
  "(string \<Rightarrow> string \<Rightarrow> bool) \<Rightarrow> opts \<Rightarrow> (string \<times> string) list \<Rightarrow> event list
     \<Rightarrow> m_error + (string \<times> string) list" where
  "mfetch_keys_miss cache_has opts miss [] = Inr miss"
| "mfetch_keys_miss cache_has opts miss (e # es) =
     (case mfetch_keys_event cache_has opts miss e of
        Inl err \<Rightarrow> Inl err
      | Inr miss' \<Rightarrow> mfetch_keys_miss cache_has opts miss' es)"

text \<open>
  \<open>eval::mfetch_keys\<close>. The result is the argument of the one call to
  \<open>m::keys::fetch\<close>, or \<open>None\<close> when the function returns without calling it; an
  exception leaves the function before any call.
\<close>

definition mfetch_keys ::
  "(string \<Rightarrow> string \<Rightarrow> bool) \<Rightarrow> opts \<Rightarrow> eval \<Rightarrow> m_error + (string \<times> string) list option" where
  "mfetch_keys cache_has opts this =
     (case mfetch_keys_miss cache_has opts [] (pdus this) of
        Inl err \<Rightarrow> Inl err
      | Inr miss \<Rightarrow> if miss = [] then Inr None else Inr (Some miss))"

text \<open>The key ids named in the signatures of an event.\<close>

definition event_key_ids :: "event \<Rightarrow> string set" where
  "event_key_ids e =
     (case ev_signatures e of
        None \<Rightarrow> {}
      | Some sigs \<Rightarrow> {key_id. \<exists>server_name signatures signature.
            (server_name, signatures) \<in> set sigs \<and> (key_id, signature) \<in> set signatures})"

text \<open>
  The server keys that one event makes \<open>mfetch_keys\<close> ask for: its origin with each key
  id of its signatures that the cache lacks, provided no \<open>node_id\<close> is set or the origin
  is that node.
\<close>

definition event_wanted ::
  "(string \<Rightarrow> string \<Rightarrow> bool) \<Rightarrow> opts \<Rightarrow> event \<Rightarrow> (string \<times> string) set" where
  "event_wanted cache_has opts e =
     {(s, k). event_origin e = Inr s \<and> (node_id opts = [] \<or> s = node_id opts) \<and>
              k \<in> event_key_ids e \<and> \<not> cache_has s k}"

section \<open>The fetch unit\<close>

subsection \<open>Requests, the environment and the observable effects\<close>

datatype fetch_error =
    M_NOT_FOUND
  | http_error
  | std_exception
  | other_exception
  | ircd_error string
  | json_error m_error

text \<open>
  \<open>ctx::promise\<close>: invalid until a future is attached to it, then pending until
  \<open>finish\<close> transfers an exception or the result into it.
\<close>

datatype promise_state = invalid | pending | has_exception fetch_error | has_value

text \<open>
  \<open>fetch::request\<close>. String views that are unset are empty; the timestamps are
  \<open>time_t\<close> values, zero until written; \<open>attempted\<close> is the set of peers tried.
  Each field carries the prefix \<open>req_\<close>.
\<close>

record request =
  req_room_id :: string
  req_event_id :: string
  req_bufsz :: nat
  req_origin :: string
  req_attempted :: "string set"
  req_started :: int
  req_last :: int
  req_finished :: int
  req_promise :: promise_state
  req_eptr :: "fetch_error option"

text \<open>\<open>request::request(room_id, event_id, bufsz)\<close>.\<close>

definition new_request :: "string \<Rightarrow> string \<Rightarrow> nat \<Rightarrow> request" where
  "new_request rid eid sz =
     \<lparr>req_room_id = rid, req_event_id = eid, req_bufsz = sz, req_origin = [], req_attempted = {},
      req_started = 0, req_last = 0, req_finished = 0, req_promise = invalid, req_eptr = None\<rparr>"

text \<open>
  What constructing the federation request \<open>m::v1::event\<close> does: it is issued, or the
  constructor throws an \<open>http::error\<close>, another \<open>std::exception\<close>, or something that
  is not a \<open>std::exception\<close>.
\<close>

datatype issue_outcome = issued_ok | throws_http_error | throws_std_exception | throws_other

text \<open>
  The collaborators of the fetch unit, as parameters: \<open>m::my_host\<close>, the latched error
  message of the server pool (\<open>ircd::server::errmsg\<close>, empty when none), the origins of a
  room in the order \<open>m::room::origins\<close> enumerates them, the successive readings of
  \<open>ircd::time()\<close>, the successive draws of the random source, and the outcome of issuing
  a request for an event id to a remote.
\<close>

record fetch_env =
  my_host :: "string \<Rightarrow> bool"
  errmsg :: "string \<Rightarrow> string"
  room_origins :: "string \<Rightarrow> string list"
  clock :: "nat \<Rightarrow> int"
  rand_integer :: "nat \<Rightarrow> nat"
  issue_result :: "string \<Rightarrow> string \<Rightarrow> issue_outcome"

text \<open>
  The state outside the request: how many clock readings and random draws have been
  made, and the log of federation requests issued so far, each with its event id, the
  remote in \<open>opts.remote\<close> and what \<open>request.attempted\<close> held at that
  moment.
\<close>

record world =
  ticks :: nat
  draws :: nat
  issued :: "(string \<times> string \<times> string set) list"

definition world0 :: world where
  "world0 = \<lparr>ticks = 0, draws = 0, issued = []\<rparr>"

definition ircd_time :: "fetch_env \<Rightarrow> world \<Rightarrow> int \<times> world" where
  "ircd_time env w = (clock env (ticks w), w\<lparr>ticks := ticks w + 1\<rparr>)"

subsection \<open>Origin selection\<close>

text \<open>The \<open>proffer\<close> closure of \<open>select_random_origin\<close>.\<close>

definition proffer :: "fetch_env \<Rightarrow> request \<Rightarrow> string \<Rightarrow> bool" where
  "proffer env request origin' =
     (if my_host env origin' then False
      else if origin' \<in> req_attempted request then False
      else if errmsg env origin' \<noteq> [] then False
      else True)"

definition select_origin :: "request \<Rightarrow> string \<Rightarrow> request" where
  "select_origin request origin' =
     request\<lparr>req_attempted := insert origin' (req_attempted request), req_origin := origin'\<rparr>"

text \<open>
  Modelled from the spec: \<open>m::room::origins::random(closure, proffer)\<close> is not among the
  sources. It samples uniformly one of the room's origins that satisfies the proffer
  predicate and passes it to the closure, returning whether there was one. The draw
  decides which of the candidates is taken.
\<close>

definition origins_random ::
  "fetch_env \<Rightarrow> world \<Rightarrow> string \<Rightarrow> (string \<Rightarrow> bool) \<Rightarrow> string option \<times> world" where
  "origins_random env w rid prof =
     (let candidates = filter prof (room_origins env rid)
      in if candidates = [] then (None, w)
         else (Some (candidates ! (rand_integer env (draws w) mod length candidates)),
               w\<lparr>draws := draws w + 1\<rparr>))"

text \<open>
  \<open>select_random_origin\<close>. The request is returned in both cases, since
  \<open>request.origin\<close> is cleared (and \<open>attempted\<close> possibly extended) before the throw.
\<close>

definition select_random_origin ::
  "fetch_env \<Rightarrow> request \<Rightarrow> world \<Rightarrow> (fetch_error + string) \<times> request \<times> world" where
  "select_random_origin env request w =
     (let request0 = request\<lparr>req_origin := []\<rparr>
      in case origins_random env w (req_room_id request0) (proffer env request0) of
           (None, w') \<Rightarrow> (Inl M_NOT_FOUND, request0, w')
         | (Some origin', w') \<Rightarrow>
             (let request1 = select_origin request0 origin'
              in if req_origin request1 = [] then (Inl M_NOT_FOUND, request1, w')
                 else (Inr (req_origin request1), request1, w')))"

subsection \<open>finish, start, retry, handle\<close>

text \<open>
  \<open>finish\<close>: the timestamp is written first; without a valid promise nothing else
  happens. The exception pointer is moved into the promise, which leaves it null.
\<close>

definition finish :: "fetch_env \<Rightarrow> request \<Rightarrow> world \<Rightarrow> request \<times> world" where
  "finish env request w =
     (let (now, w') = ircd_time env w;
          request1 = request\<lparr>req_finished := now\<rparr>
      in if req_promise request1 = invalid then (request1, w')
         else
           (case req_eptr request1 of
              Some e \<Rightarrow> (request1\<lparr>req_promise := has_exception e, req_eptr := None\<rparr>, w')
            | None \<Rightarrow> (request1\<lparr>req_promise := has_value\<rparr>, w')))"

text \<open>
  \<open>if(!request.started) request.started = ircd::time();\<close>
\<close>

definition set_started :: "fetch_env \<Rightarrow> request \<Rightarrow> world \<Rightarrow> request \<times> world" where
  "set_started env request w =
     (if req_started request = 0
      then (let (now, w') = ircd_time env w in (request\<lparr>req_started := now\<rparr>, w'))
      else (request, w))"

text \<open>
  \<open>start(request &, m::v1::event::opts &)\<close> with \<open>opts.remote = remote\<close>. \<open>None\<close> is
  a failed assertion. Otherwise the result is the boolean returned, or the exception that
  leaves the function: the handlers catch \<open>http::error\<close> and \<open>std::exception\<close> only.
\<close>

definition start_opts ::
  "fetch_env \<Rightarrow> request \<Rightarrow> string \<Rightarrow> world \<Rightarrow> ((fetch_error + bool) \<times> request \<times> world) option" where
  "start_opts env request remote w =
     (if req_finished request \<noteq> 0 then None
      else
        (let (request1, w1) = set_started env request w;
             (now, w2) = ircd_time env w1;
             request2 = request1\<lparr>req_last := now\<rparr>
         in case issue_result env (req_event_id request2) remote of
              issued_ok \<Rightarrow>
                Some (Inr True, request2,
                      w2\<lparr>issued := issued w2 @
                           [(req_event_id request2, remote, req_attempted request2)]\<rparr>)
            | throws_http_error \<Rightarrow> Some (Inr False, request2, w2)
            | throws_std_exception \<Rightarrow> Some (Inr False, request2, w2)
            | throws_other \<Rightarrow> Some (Inl other_exception, request2, w2)))"

text \<open>
  The \<open>catch(...)\<close> handler of \<open>start(request &)\<close>.
\<close>

definition start_catch ::
  "fetch_env \<Rightarrow> fetch_error \<Rightarrow> request \<Rightarrow> world \<Rightarrow> (bool \<times> request \<times> world) option" where
  "start_catch env e request w =
     (if req_finished request \<noteq> 0 then None
      else (let (request', w') = finish env (request\<lparr>req_eptr := Some e\<rparr>) w
            in Some (False, request', w')))"

text \<open>
  The loop \<open>while(request.origin)\<close> of \<open>start(request &)\<close> with what follows it;
  \<open>remote\<close> is \<open>opts.remote\<close>. An exception from \<open>start\<close> or from
  \<open>select_random_origin\<close> reaches the \<open>catch(...)\<close> handler. Its termination is
  proved below, once the effect of a selection on \<open>attempted\<close> is established.
\<close>

function start_loop ::
  "fetch_env \<Rightarrow> string \<Rightarrow> request \<Rightarrow> world \<Rightarrow> (bool \<times> request \<times> world) option" where
  "start_loop env remote request w =
     (if req_origin request \<noteq> [] then
        (case start_opts env request remote w of
           None \<Rightarrow> None
         | Some (Inl e, request1, w1) \<Rightarrow> start_catch env e request1 w1
         | Some (Inr True, request1, w1) \<Rightarrow> Some (True, request1, w1)
         | Some (Inr False, request1, w1) \<Rightarrow>
             (case select_random_origin env request1 w1 of
                (Inl e, request2, w2) \<Rightarrow> start_catch env e request2 w2
              | (Inr origin', request2, w2) \<Rightarrow>
                  start_loop env (req_origin request2) request2 w2))
      else if req_finished request \<noteq> 0 then None
      else (let (request', w') = finish env request w in Some (False, request', w')))"
  by pat_completeness auto

text \<open>
  \<open>start(request &)\<close>. \<open>opts.remote\<close> is unset when the request arrives with an
  origin already selected.
\<close>

definition start :: "fetch_env \<Rightarrow> request \<Rightarrow> world \<Rightarrow> (bool \<times> request \<times> world) option" where
  "start env request w =
     (if req_finished request \<noteq> 0 then None
      else
        (let (request1, w1) = set_started env request w
         in if req_origin request1 = [] then
              (case select_random_origin env request1 w1 of
                 (Inl e, request2, w2) \<Rightarrow> start_catch env e request2 w2
               | (Inr origin', request2, w2) \<Rightarrow>
                   start_loop env (req_origin request2) request2 w2)
            else start_loop env [] request1 w1))"

text \<open>
  \<open>retry\<close>: the transport is cancelled (no state of the model), \<open>eptr\<close> and
  \<open>origin\<close> are cleared and the request is started again.
\<close>

definition retry :: "fetch_env \<Rightarrow> request \<Rightarrow> world \<Rightarrow> (request \<times> world) option" where
  "retry env request w =
     (if req_finished request \<noteq> 0 then None
      else if \<not> (req_started request \<noteq> 0 \<and> req_last request \<noteq> 0) then None
      else
        (case start env (request\<lparr>req_eptr := None, req_origin := []\<rparr>) w of
           None \<Rightarrow> None
         | Some (b, request', w') \<Rightarrow> Some (request', w')))"

text \<open>
  \<open>handle\<close>: \<open>thrown\<close> is the exception, if any, that waiting for the response,
  reading it or \<open>check_response\<close> throws. The boolean returned is \<open>request.finished\<close>.
\<close>

definition handle ::
  "fetch_env \<Rightarrow> fetch_error option \<Rightarrow> request \<Rightarrow> world \<Rightarrow> (bool \<times> request \<times> world) option" where
  "handle env thrown request w =
     (let request1 = (case thrown of Some e \<Rightarrow> request\<lparr>req_eptr := Some e\<rparr> | None \<Rightarrow> request)
      in if req_eptr request1 = None then
           (let (request', w') = finish env request1 w
            in Some (req_finished request' \<noteq> 0, request', w'))
         else
           (case retry env request1 w of
              None \<Rightarrow> None
            | Some (request', w') \<Rightarrow> Some (req_finished request' \<noteq> 0, request', w')))"

subsection \<open>Submission\<close>

text \<open>
  The global \<open>requests\<close> is a \<open>std::set\<close> ordered by \<open>event_id\<close>: a list of requests
  in ascending order of \<open>event_id\<close>. An iterator is an index, \<open>end\<close> the length.
\<close>

definition lower_bound :: "request list \<Rightarrow> string \<Rightarrow> nat" where
  "lower_bound requests key = length (takeWhile (\<lambda>r. req_event_id r < key) requests)"

text \<open>
  \<open>std::set::emplace_hint\<close>: the hint does not affect the result. When an element
  equivalent to the new one exists, nothing is inserted and its iterator is returned;
  otherwise the new element is inserted at its place in the order.
\<close>

definition emplace_hint :: "request list \<Rightarrow> nat \<Rightarrow> request \<Rightarrow> request list \<times> nat" where
  "emplace_hint requests hint new =
     (let pos = lower_bound requests (req_event_id new)
      in if pos < length requests \<and> \<not> req_event_id new < req_event_id (requests ! pos)
         then (requests, pos)
         else (take pos requests @ new # drop pos requests, pos))"

text \<open>
  A \<open>ctx::future<result>\<close> is empty, or attached to the promise of the request with the
  given \<open>event_id\<close>.
\<close>

datatype future = empty_future | future_of string

text \<open>
  \<open>submit(event_id, room_id, bufsz)\<close> on the set of requests. \<open>None\<close> is a failed
  assertion. Attaching the future makes the promise of the new request valid before
  \<open>start(request)\<close> runs.
\<close>

definition submit ::
  "fetch_env \<Rightarrow> string \<Rightarrow> string \<Rightarrow> nat \<Rightarrow> request list \<Rightarrow> world
     \<Rightarrow> (future \<times> request list \<times> world) option" where
  "submit env eid rid sz requests w =
     (if \<not> (rid \<noteq> [] \<and> eid \<noteq> []) then None
      else
        (let it = lower_bound requests eid
         in if it < length requests \<and> req_event_id (requests ! it) = eid then
              (if req_room_id (requests ! it) \<noteq> rid then None
               else Some (empty_future, requests, w))
            else
              (let (requests1, it1) = emplace_hint requests it (new_request rid eid sz);
                   request = (requests1 ! it1)\<lparr>req_promise := pending\<rparr>;
                   ret = future_of (req_event_id request)
               in case start env request w of
                    None \<Rightarrow> None
                  | Some (b, request', w') \<Rightarrow> Some (ret, requests1[it1 := request'], w'))))"

subsection \<open>Response validation\<close>

text \<open>
  The three configuration items read by \<open>check_response\<close>; \<open>check_signature\<close> is a
  \<open>conf::item<int>\<close>, tested for being non-zero.
\<close>

record check_conf =
  check_event_id :: bool
  check_conforms :: bool
  check_signature :: int

text \<open>
  The collaborators of \<open>check_response\<close>, as parameters: \<open>m::check_id\<close>, whether
  \<open>m::event::conforms\<close> is clean, \<open>m::keys::cache::has\<close> and \<open>m::verify\<close>.
\<close>

record check_env =
  m_check_id :: "event \<Rightarrow> bool"
  conforms_clean :: "event \<Rightarrow> bool"
  keys_cache_has :: "string \<Rightarrow> string \<Rightarrow> bool"
  m_verify :: "event \<Rightarrow> string \<Rightarrow> bool"

text \<open>
  \<open>check_response\<close>: the response parsed as an event that carries the id sought.
  \<open>Inr ()\<close> is a normal return, \<open>Inl\<close> the exception thrown. The source looks the
  signatures up with \<open>at<"signatures"_>(event).at("server")\<close>, that is under the
  literal member name \<open>server\<close>; \<open>json::object::at\<close> throws when there is no such
  member. The key id is the name of the first member found there.
\<close>

definition check_response ::
  "check_conf \<Rightarrow> check_env \<Rightarrow> request \<Rightarrow> event \<Rightarrow> fetch_error + unit" where
  "check_response conf cenv request response =
     (let event = response\<lparr>ev_event_id := req_event_id request\<rparr>
      in if check_event_id conf \<and> \<not> m_check_id cenv event
         then Inl (ircd_error ''event::id claim != sought'')
         else if check_conforms conf \<and> \<not> conforms_clean cenv event
         then Inl (ircd_error ''Non-conforming event in response'')
         else if check_signature conf \<noteq> 0 then
           (case (if ev_origin event = []
                  then (if ev_sender event = [] then Inl json_not_found
                        else user_id_host (ev_sender event))
                  else Inr (ev_origin event)) of
              Inl err \<Rightarrow> Inl (json_error err)
            | Inr server \<Rightarrow>
                (case ev_signatures event of
                   None \<Rightarrow> Inl (json_error json_not_found)
                 | Some sigs \<Rightarrow>
                     (case map_of sigs ''server'' of
                        None \<Rightarrow> Inl (json_error json_not_found)
                      | Some signatures \<Rightarrow>
                          (let key_id = (case signatures of [] \<Rightarrow> [] | (k, v) # rest \<Rightarrow> k)
                           in if key_id = []
                              then Inl (ircd_error ''Cannot find any keys in event.signatures'')
                              else if keys_cache_has cenv server key_id
                                        \<and> \<not> m_verify cenv event server
                              then Inl (ircd_error ''Signature verification failed.'')
                              else Inr ()))))
         else Inr ())"

subsection \<open>Runs of the operations on one request\<close>

datatype fetch_op = Start | Retry | Finish | Handle "fetch_error option"

fun apply_fetch_op ::
  "fetch_env \<Rightarrow> fetch_op \<Rightarrow> request \<Rightarrow> world \<Rightarrow> (request \<times> world) option" where
  "apply_fetch_op env Start request w =
     (case start env request w of None \<Rightarrow> None | Some (b, request', w') \<Rightarrow> Some (request', w'))"
| "apply_fetch_op env Retry request w = retry env request w"
| "apply_fetch_op env Finish request w = Some (finish env request w)"
| "apply_fetch_op env (Handle thrown) request w =
     (case handle env thrown request w of
        None \<Rightarrow> None
      | Some (b, request', w') \<Rightarrow> Some (request', w'))"

fun run_fetch_ops ::
  "fetch_env \<Rightarrow> fetch_op list \<Rightarrow> request \<Rightarrow> world \<Rightarrow> (request \<times> world) option" where
  "run_fetch_ops env [] request w = Some (request, w)"
| "run_fetch_ops env (x # xs) request w =
     (case apply_fetch_op env x request w of
        None \<Rightarrow> None
      | Some (request', w') \<Rightarrow> run_fetch_ops env xs request' w')"

subsection \<open>The set of requests over time\<close>

text \<open>
  What happens to the set between submissions: the worker runs an operation on a request
  in place (\<open>request_handle\<close>, \<open>request_cleanup\<close>) or erases one. \<open>None\<close> is a
  failed assertion or an iterator out of range.
\<close>

datatype requests_op = Submit string string nat | Worker nat fetch_op | Erase nat

fun apply_requests_op ::
  "fetch_env \<Rightarrow> requests_op \<Rightarrow> request list \<Rightarrow> world \<Rightarrow> (request list \<times> world) option" where
  "apply_requests_op env (Submit eid rid sz) requests w =
     (case submit env eid rid sz requests w of
        None \<Rightarrow> None
      | Some (f, requests', w') \<Rightarrow> Some (requests', w'))"
| "apply_requests_op env (Worker it x) requests w =
     (if it < length requests then
        (case apply_fetch_op env x (requests ! it) w of
           None \<Rightarrow> None
         | Some (request', w') \<Rightarrow> Some (requests[it := request'], w'))
      else None)"
| "apply_requests_op env (Erase it) requests w =
     (if it < length requests then Some (take it requests @ drop (Suc it) requests, w)
      else None)"

fun run_requests_ops ::
  "fetch_env \<Rightarrow> requests_op list \<Rightarrow> request list \<Rightarrow> world \<Rightarrow> (request list \<times> world) option" where
  "run_requests_ops env [] requests w = Some (requests, w)"
| "run_requests_ops env (x # xs) requests w =
     (case apply_requests_op env x requests w of
        None \<Rightarrow> None
      | Some (requests', w') \<Rightarrow> run_requests_ops env xs requests' w')"

text \<open>
  The relation between the timestamps of a request and the clock that the operations
  maintain: no timestamp is ahead of the next clock reading, \<open>last\<close> is written only
  after \<open>started\<close>, and \<open>finished\<close> only after \<open>last\<close> and \<open>started\<close>.
\<close>

definition ts_inv :: "fetch_env \<Rightarrow> request \<Rightarrow> world \<Rightarrow> bool" where
  "ts_inv env request w =
     (req_started request \<le> clock env (ticks w) \<and>
      req_last request \<le> clock env (ticks w) \<and>
      req_finished request \<le> clock env (ticks w) \<and>
      (req_last request = 0 \<or>
         (req_started request \<noteq> 0 \<and> req_started request \<le> req_last request)) \<and>
      (req_finished request = 0 \<or>
         (req_last request \<le> req_finished request \<and>
          req_started request \<le> req_finished request)))"

text \<open>
  An entry of the issuance log is a selected origin of room \<open>rid\<close> when its remote was
  in \<open>attempted\<close> at issuance, is an origin of the room, is not the local server and
  has no latched error.
\<close>

definition selected :: "fetch_env \<Rightarrow> string \<Rightarrow> string \<times> string \<times> string set \<Rightarrow> bool" where
  "selected env rid entry =
     (case entry of (eid, remote, att) \<Rightarrow>
        remote \<in> att \<and> remote \<in> set (room_origins env rid) \<and>
        \<not> my_host env remote \<and> errmsg env remote = [])"

text \<open>Evals and events used as concrete inputs below.\<close>

definition example_event :: "string \<Rightarrow> event" where
  "example_event eid =
     \<lparr>ev_event_id = eid, ev_origin = ''remote.org'', ev_sender = ''@alice:remote.org'',
      ev_depth = 1, ev_origin_server_ts = 1000,
      ev_signatures = Some [(''remote.org'', [(''ed25519:1'', ''c2ln'')])]\<rparr>"

definition example_eval :: "nat \<Rightarrow> nat \<Rightarrow> event option \<Rightarrow> string \<Rightarrow> eval" where
  "example_eval i sq body shortcut =
     \<lparr>eval_id = i, ctx = 0, sequence = sq, parent = None, child = None,
      eval_event = body, issue = None, eval_event_id = shortcut, pdus = []\<rparr>"

definition example_pdu :: "int \<Rightarrow> int \<Rightarrow> string \<Rightarrow> string \<Rightarrow> string list \<Rightarrow> event" where
  "example_pdu d t i origin key_ids =
     \<lparr>ev_event_id = i, ev_origin = origin, ev_sender = ''@alice:remote.org'',
      ev_depth = d, ev_origin_server_ts = t,
      ev_signatures = Some [(origin, map (\<lambda>k. (k, ''c2ln'')) key_ids)]\<rparr>"

text \<open>
  An environment for concrete runs: the room has four origins, of which one is the local
  server and one has a latched error; requests to \<open>s2.org\<close> fail at issuance.
\<close>

definition example_env :: fetch_env where
  "example_env =
     \<lparr>my_host = (\<lambda>h. h = ''me.org''),
      errmsg = (\<lambda>h. if h = ''bad.org'' then ''timeout'' else []),
      room_origins = (\<lambda>rid. [''me.org'', ''bad.org'', ''s1.org'', ''s2.org'']),
      clock = (\<lambda>n. 100 + int n),
      rand_integer = (\<lambda>n. 1),
      issue_result = (\<lambda>eid remote. if remote = ''s2.org'' then throws_http_error else issued_ok)\<rparr>"

text \<open>The same environment for a room whose only origin is the local server.\<close>

definition example_env_local :: fetch_env where
  "example_env_local = example_env\<lparr>room_origins := (\<lambda>rid. [''me.org''])\<rparr>"

text \<open>
  The default configuration, and collaborators for which every key is cached and every
  check succeeds.
\<close>

definition default_conf :: check_conf where
  "default_conf = \<lparr>check_event_id = True, check_conforms = False, check_signature = 1\<rparr>"

definition example_check_env :: check_env where
  "example_check_env =
     \<lparr>m_check_id = (\<lambda>e. True), conforms_clean = (\<lambda>e. True),
      keys_cache_has = (\<lambda>server key_id. True), m_verify = (\<lambda>e server. True)\<rparr>"

text \<open>The requests and the world after submitting \<open>$X\<close> and then \<open>$A\<close>.\<close>

definition example_requests :: "request list" where
  "example_requests =
     [\<lparr>req_room_id = ''!r'', req_event_id = ''$A'', req_bufsz = 8192,
        req_origin = ''s1.org'', req_attempted = {''s1.org'', ''s2.org''},
        req_started = 103, req_last = 105, req_finished = 0,
        req_promise = pending, req_eptr = None\<rparr>,
      \<lparr>req_room_id = ''!r'', req_event_id = ''$X'', req_bufsz = 8192,
        req_origin = ''s1.org'', req_attempted = {''s1.org'', ''s2.org''},
        req_started = 100, req_last = 102, req_finished = 0,
        req_promise = pending, req_eptr = None\<rparr>]"

definition example_world :: world where
  "example_world =
     \<lparr>ticks = 6, draws = 4,
      issued = [(''$X'', ''s1.org'', {''s1.org'', ''s2.org''}),
                (''$A'', ''s1.org'', {''s1.org'', ''s2.org''})]\<rparr>"

section \<open>Properties of the registry lookups\<close>

lemma min_fold_in:
  "foldl (\<lambda>s i. if cmp i s then i else s) x xs \<in> set (x # xs)"
  by (induction xs arbitrary: x) auto

lemma max_fold_in:
  "foldl (\<lambda>l i. if cmp l i then i else l) x xs \<in> set (x # xs)"
  by (induction xs arbitrary: x) auto

lemma seqmin_fold_zero:
  "sequence (foldl (\<lambda>s i. if seqmin_comp i s then i else s) x xs) = 0
     \<longleftrightarrow> (\<forall>e \<in> set (x # xs). sequence e = 0)"
  by (induction xs arbitrary: x) (auto simp: seqmin_comp_def)

lemma seqmin_fold_le:
  "e \<in> set (x # xs) \<Longrightarrow> 0 < sequence e \<Longrightarrow>
     sequence (foldl (\<lambda>s i. if seqmin_comp i s then i else s) x xs) \<le> sequence e"
proof (induction xs arbitrary: x e)
  case Nil then show ?case by simp
next
  case (Cons y ys)
  show ?case
  proof (cases "seqmin_comp y x")
    case True
    then have lt: "sequence x = 0 \<or> sequence y < sequence x" "0 < sequence y"
      by (auto simp: seqmin_comp_def split: if_splits)
    show ?thesis
    proof (cases "e = x")
      case True note ex = this
      with Cons.prems lt have "sequence y < sequence x" by auto
      moreover have "sequence (foldl (\<lambda>s i. if seqmin_comp i s then i else s) y ys) \<le> sequence y"
        using Cons.IH[of y] lt(2) by simp
      ultimately show ?thesis using \<open>seqmin_comp y x\<close> ex by simp
    next
      case False
      with Cons.prems have "e \<in> set (y # ys)" by auto
      from Cons.IH[OF this Cons.prems(2)] show ?thesis using \<open>seqmin_comp y x\<close> by simp
    qed
  next
    case False
    show ?thesis
    proof (cases "e = y")
      case True
      with False Cons.prems have "0 < sequence x" "sequence x \<le> sequence y"
        by (auto simp: seqmin_comp_def split: if_splits)
      moreover have "sequence (foldl (\<lambda>s i. if seqmin_comp i s then i else s) x ys) \<le> sequence x"
        using Cons.IH[of x] \<open>0 < sequence x\<close> by simp
      ultimately show ?thesis using False True by simp
    next
      case ney: False
      with Cons.prems have "e \<in> set (x # ys)" by auto
      from Cons.IH[OF this Cons.prems(2)] show ?thesis using False by simp
    qed
  qed
qed

lemma seqmax_fold_ge:
  "e \<in> set (x # xs) \<Longrightarrow>
     sequence e \<le> sequence (foldl (\<lambda>l i. if seqmax_comp l i then i else l) x xs)"
proof (induction xs arbitrary: x e)
  case Nil then show ?case by simp
next
  case (Cons y ys)
  have a: "sequence x \<le> sequence (foldl (\<lambda>l i. if seqmax_comp l i then i else l) x ys)"
    using Cons.IH[of x x] by simp
  have b: "sequence y \<le> sequence (foldl (\<lambda>l i. if seqmax_comp l i then i else l) y ys)"
    using Cons.IH[of y y] by simp
  show ?case
  proof (cases "seqmax_comp x y")
    case True
    then have "sequence x < sequence y" by (simp add: seqmax_comp_def)
    with Cons.prems Cons.IH[of e y] b True show ?thesis by auto
  next
    case False
    then have "sequence y \<le> sequence x" by (simp add: seqmax_comp_def)
    with Cons.prems Cons.IH[of e x] a False show ?thesis by auto
  qed
qed

text \<open>
  Claim C6. \<open>seqmin\<close> returns none exactly when no live eval has a positive sequence,
  and otherwise a live eval with positive sequence that is least among the live evals
  with positive sequence (evals with sequence 0 do not take part). \<open>seqmax\<close> returns
  none exactly when no live eval has a positive sequence, and otherwise a live eval with
  positive sequence that is greatest among all live evals.
\<close>

theorem seqmin_seqmax_spec:
  "(seqmin list = None \<longleftrightarrow> (\<forall>e \<in> set list. sequence e = 0)) \<and>
   (\<forall>m. seqmin list = Some m \<longrightarrow>
      m \<in> set list \<and> 0 < sequence m \<and>
      (\<forall>e \<in> set list. 0 < sequence e \<longrightarrow> sequence m \<le> sequence e)) \<and>
   (seqmax list = None \<longleftrightarrow> (\<forall>e \<in> set list. sequence e = 0)) \<and>
   (\<forall>m. seqmax list = Some m \<longrightarrow>
      m \<in> set list \<and> 0 < sequence m \<and>
      (\<forall>e \<in> set list. sequence e \<le> sequence m))"
proof (cases list)
  case Nil
  then show ?thesis by (simp add: seqmin_def seqmax_def)
next
  case (Cons x xs)
  let ?mn = "foldl (\<lambda>s i. if seqmin_comp i s then i else s) x xs"
  let ?mx = "foldl (\<lambda>l i. if seqmax_comp l i then i else l) x xs"
  have mn: "seqmin list = (if sequence ?mn = 0 then None else Some ?mn)"
    by (simp add: seqmin_def Cons)
  have mx: "seqmax list = (if sequence ?mx = 0 then None else Some ?mx)"
    by (simp add: seqmax_def Cons)
  have mn_in: "?mn \<in> set list" unfolding Cons by (rule min_fold_in)
  have mx_in: "?mx \<in> set list" unfolding Cons by (rule max_fold_in)
  have mn0: "sequence ?mn = 0 \<longleftrightarrow> (\<forall>e \<in> set list. sequence e = 0)"
    unfolding Cons by (rule seqmin_fold_zero)
  have mn_le: "\<And>e. e \<in> set list \<Longrightarrow> 0 < sequence e \<Longrightarrow> sequence ?mn \<le> sequence e"
    unfolding Cons by (rule seqmin_fold_le)
  have mx_ge: "\<And>e. e \<in> set list \<Longrightarrow> sequence e \<le> sequence ?mx"
    unfolding Cons by (rule seqmax_fold_ge)
  have mx0: "sequence ?mx = 0 \<longleftrightarrow> (\<forall>e \<in> set list. sequence e = 0)"
    using mx_ge mx_in by fastforce
  have 1: "seqmin list = None \<longleftrightarrow> (\<forall>e \<in> set list. sequence e = 0)"
    using mn mn0 by simp
  have 2: "\<forall>m. seqmin list = Some m \<longrightarrow>
      m \<in> set list \<and> 0 < sequence m \<and>
      (\<forall>e \<in> set list. 0 < sequence e \<longrightarrow> sequence m \<le> sequence e)"
    using mn mn_in mn_le by (auto split: if_splits)
  have 3: "seqmax list = None \<longleftrightarrow> (\<forall>e \<in> set list. sequence e = 0)"
    using mx mx0 by simp
  have 4: "\<forall>m. seqmax list = Some m \<longrightarrow>
      m \<in> set list \<and> 0 < sequence m \<and> (\<forall>e \<in> set list. sequence e \<le> sequence m)"
    using mx mx_in mx_ge by (auto split: if_splits)
  from 1 2 3 4 show ?thesis by blast
qed

theorem seqmin_seqmax_spec_witness:
  "seqmin [example_eval 1 0 None ''$X'', example_eval 2 7 None ''$X'', example_eval 3 4 None ''$X'']
     = Some (example_eval 3 4 None ''$X'') \<and>
   seqmax [example_eval 1 0 None ''$X'', example_eval 2 7 None ''$X'', example_eval 3 4 None ''$X'']
     = Some (example_eval 2 7 None ''$X'') \<and>
   seqmin [example_eval 1 0 None ''$X''] = None \<and>
   seqmax [example_eval 1 0 None ''$X''] = None"
  using seqmin_seqmax_spec[of "[example_eval 1 0 None ''$X'', example_eval 2 7 None ''$X'',
      example_eval 3 4 None ''$X'']"]
    seqmin_seqmax_spec[of "[example_eval 1 0 None ''$X'']"]
  by (simp add: seqmin_def seqmax_def seqmin_comp_def seqmax_comp_def example_eval_def)


lemma find_closure_first_present:
  "find_closure eid e \<longleftrightarrow> first_present_matches eid e"
  by (auto simp: find_closure_def first_present_matches_def split: option.splits)

lemma first_present_spec_matches:
  "first_present_matches eid e \<Longrightarrow> spec_matches eid e"
  by (auto simp: spec_matches_def first_present_matches_def split: option.splits)

lemma find_eval_None_iff:
  "find_eval list eid = None \<longleftrightarrow> (\<forall>e \<in> set list. \<not> find_closure eid e)"
  by (induction list) auto

lemma find_eval_Some:
  "find_eval list eid = Some r \<Longrightarrow> r \<in> set list \<and> find_closure eid r"
  by (induction list) (auto split: if_splits)

lemma find_eval_first:
  "find_eval list eid = Some r \<Longrightarrow>
     \<exists>pre post. list = pre @ r # post \<and> (\<forall>e \<in> set pre. \<not> find_closure eid e)"
proof (induction list)
  case Nil then show ?case by simp
next
  case (Cons a list)
  show ?case
  proof (cases "find_closure eid a")
    case True
    with Cons.prems have "a = r" by simp
    then have "a # list = [] @ r # list \<and> (\<forall>e \<in> set []. \<not> find_closure eid e)" by simp
    then show ?thesis by blast
  next
    case False
    with Cons.prems have "find_eval list eid = Some r" by simp
    from Cons.IH[OF this] obtain pre post where
      "list = pre @ r # post" "\<forall>e \<in> set pre. \<not> find_closure eid e" by blast
    with False have "a # list = (a # pre) @ r # post \<and> (\<forall>e \<in> set (a # pre). \<not> find_closure eid e)"
      by simp
    then show ?thesis by blast
  qed
qed

text \<open>
  Claim C7, as stated, fails: an eval that carries an event body with another id is not
  found through its shortcut field, although the disjunction of the three tests holds
  for it.
\<close>

theorem find_disjunction_counterexample:
  "find_eval [example_eval 1 0 (Some (example_event ''$A'')) ''$B''] ''$B'' = None \<and>
   spec_matches ''$B'' (example_eval 1 0 (Some (example_event ''$A'')) ''$B'')"
  by (simp add: find_closure_def spec_matches_def example_eval_def example_event_def)

text \<open>
  Claim C7, amended. \<open>find\<close> returns an eval exactly when some live eval matches under
  the precedence of the three tests: (a) it has an in-flight event body whose id equals
  the id sought; or (b) it has no event body, it has an injection payload, and the
  payload's \<open>event_id\<close> field equals it; or (c) it has neither, and its shortcut field
  equals it. The eval returned is live, matches under that precedence and therefore
  satisfies the plain disjunction.
\<close>

theorem find_first_present:
  "(find_eval list eid \<noteq> None \<longleftrightarrow> (\<exists>e \<in> set list. first_present_matches eid e)) \<and>
   (\<forall>r. find_eval list eid = Some r \<longrightarrow>
      r \<in> set list \<and> first_present_matches eid r \<and> spec_matches eid r)"
proof -
  have 1: "find_eval list eid \<noteq> None \<longleftrightarrow> (\<exists>e \<in> set list. first_present_matches eid e)"
    using find_eval_None_iff[of list eid] by (simp add: find_closure_first_present)
  have 2: "\<forall>r. find_eval list eid = Some r \<longrightarrow>
      r \<in> set list \<and> first_present_matches eid r \<and> spec_matches eid r"
    using find_eval_Some[of list eid] first_present_spec_matches[of eid]
    by (auto simp: find_closure_first_present)
  from 1 2 show ?thesis by blast
qed

theorem find_first_present_witness:
  "find_eval [example_eval 1 0 (Some (example_event ''$A'')) ''$B'',
              example_eval 2 0 None ''$B''] ''$B'' = Some (example_eval 2 0 None ''$B'') \<and>
   first_present_matches ''$B'' (example_eval 2 0 None ''$B'') \<and>
   spec_matches ''$B'' (example_eval 2 0 None ''$B'')"
  using find_first_present[of "[example_eval 1 0 (Some (example_event ''$A'')) ''$B'',
              example_eval 2 0 None ''$B'']" "''$B''"]
  by (simp add: find_closure_def example_eval_def example_event_def)

text \<open>
  Claim C10. \<open>eval::get\<close> throws \<open>std::out_of_range\<close> exactly when \<open>find\<close>
  returns null, which is exactly when no live eval passes the test of \<open>find\<close>;
  otherwise it returns the eval that \<open>find\<close> returns; the registry is the same after
  the call in both cases.
\<close>

theorem get_throws_iff_no_match:
  "(fst (get_eval list eid) = Inl out_of_range \<longleftrightarrow> find_eval list eid = None) \<and>
   (find_eval list eid = None \<longleftrightarrow> \<not> (\<exists>e \<in> set list. find_closure eid e)) \<and>
   (\<forall>r. find_eval list eid = Some r \<longrightarrow> fst (get_eval list eid) = Inr r) \<and>
   snd (get_eval list eid) = list"
  using find_eval_None_iff[of list eid]
  by (auto simp: get_eval_def split: option.splits)

theorem get_throws_iff_no_match_witness:
  "fst (get_eval [example_eval 1 0 None ''$A'', example_eval 2 0 None ''$B''] ''$B'')
     = Inr (example_eval 2 0 None ''$B'') \<and>
   fst (get_eval [example_eval 1 0 None ''$A'', example_eval 2 0 None ''$B''] ''$C'')
     = Inl out_of_range \<and>
   snd (get_eval [example_eval 1 0 None ''$A'', example_eval 2 0 None ''$B''] ''$C'')
     = [example_eval 1 0 None ''$A'', example_eval 2 0 None ''$B'']"
  using get_throws_iff_no_match[of "[example_eval 1 0 None ''$A'', example_eval 2 0 None ''$B'']" "''$B''"]
    get_throws_iff_no_match[of "[example_eval 1 0 None ''$A'', example_eval 2 0 None ''$B'']" "''$C''"]
  by (simp add: find_closure_def example_eval_def)

section \<open>The parent/child links of the registry\<close>

lemma fp_fold_None:
  "foldl (find_parent_closure a) acc xs = None \<longleftrightarrow> acc = None \<and> (\<forall>e \<in> set xs. eval_id e = a)"
  by (induction xs arbitrary: acc) (auto simp: find_parent_closure_def split: option.splits)

lemma fp_fold_mem:
  "foldl (find_parent_closure a) acc xs = Some pe \<Longrightarrow> acc = Some pe \<or> pe \<in> set xs \<and> eval_id pe \<noteq> a"
proof (induction xs arbitrary: acc)
  case Nil then show ?case by simp
next
  case (Cons x xs)
  from Cons.prems have "foldl (find_parent_closure a) (find_parent_closure a acc x) xs = Some pe" by simp
  from Cons.IH[OF this] show ?case
    by (auto simp: find_parent_closure_def split: if_splits)
qed

lemma fp_fold_ge_acc:
  "foldl (find_parent_closure a) acc xs = Some pe \<Longrightarrow> acc = Some r \<Longrightarrow> eval_id r \<le> eval_id pe"
proof (induction xs arbitrary: acc r)
  case Nil then show ?case by simp
next
  case (Cons x xs)
  from Cons.prems have f: "foldl (find_parent_closure a) (find_parent_closure a acc x) xs = Some pe" by simp
  show ?case
  proof (cases "eval_id x \<noteq> a \<and> eval_id r < eval_id x")
    case True
    then have "find_parent_closure a acc x = Some x" using Cons.prems(2) by (simp add: find_parent_closure_def)
    from Cons.IH[OF f this] True show ?thesis by simp
  next
    case False
    then have "find_parent_closure a acc x = Some r" using Cons.prems(2) by (auto simp: find_parent_closure_def)
    from Cons.IH[OF f this] show ?thesis .
  qed
qed

lemma fp_fold_ge_mem:
  "foldl (find_parent_closure a) acc xs = Some pe \<Longrightarrow> e \<in> set xs \<Longrightarrow> eval_id e \<noteq> a \<Longrightarrow>
     eval_id e \<le> eval_id pe"
proof (induction xs arbitrary: acc)
  case Nil then show ?case by simp
next
  case (Cons x xs)
  from Cons.prems have f: "foldl (find_parent_closure a) (find_parent_closure a acc x) xs = Some pe" by simp
  show ?case
  proof (cases "e = x")
    case True
    show ?thesis
    proof (cases "find_parent_closure a acc x = Some x")
      case True
      from fp_fold_ge_acc[OF f this] \<open>e = x\<close> show ?thesis by simp
    next
      case False
      with Cons.prems(3) \<open>e = x\<close> obtain r where r: "acc = Some r" "\<not> eval_id r < eval_id x"
        by (auto simp: find_parent_closure_def split: option.splits if_splits)
      then have "find_parent_closure a acc x = Some r" by (simp add: find_parent_closure_def)
      from fp_fold_ge_acc[OF f this] r \<open>e = x\<close> show ?thesis by simp
    qed
  next
    case False
    with Cons.prems have "e \<in> set xs" by simp
    from Cons.IH[OF f this Cons.prems(3)] show ?thesis .
  qed
qed

lemma find_parent_None:
  "find_parent list a c = None \<Longrightarrow> e \<in> set list \<Longrightarrow> ctx e = c \<Longrightarrow> eval_id e = a"
  using fp_fold_None[of a None "filter (\<lambda>e. ctx e = c) list"]
  by (auto simp: find_parent_def)

lemma find_parent_Some:
  "find_parent list a c = Some pe \<Longrightarrow>
     pe \<in> set list \<and> ctx pe = c \<and> eval_id pe \<noteq> a \<and>
     (\<forall>e \<in> set list. ctx e = c \<and> eval_id e \<noteq> a \<longrightarrow> eval_id e \<le> eval_id pe)"
  using fp_fold_mem[of a None "filter (\<lambda>e. ctx e = c) list" pe]
    fp_fold_ge_mem[of a None "filter (\<lambda>e. ctx e = c) list" pe]
  by (auto simp: find_parent_def)

lemma lookup_eval_Some:
  "lookup_eval list a = Some e \<Longrightarrow> e \<in> set list \<and> eval_id e = a"
  by (auto simp: lookup_eval_def find_Some_iff)

lemma lookup_eval_None:
  "lookup_eval list a = None \<Longrightarrow> e \<in> set list \<Longrightarrow> eval_id e \<noteq> a"
  by (auto simp: lookup_eval_def find_None_iff)

lemma lookup_eval_distinct:
  "distinct (map eval_id list) \<Longrightarrow> e \<in> set list \<Longrightarrow> lookup_eval list (eval_id e) = Some e"
  by (induction list) (auto simp: lookup_eval_def)

lemma ids_set_child: "map eval_id (set_child p v list) = map eval_id list"
  by (induction list) (auto simp: set_child_def)

lemma set_set_child:
  "set (set_child p v list) = (\<lambda>e. if eval_id e = p then e\<lparr>child := v\<rparr> else e) ` set list"
  by (simp add: set_child_def)

lemma distinct_ids_eq:
  "distinct (map eval_id list) \<Longrightarrow> e \<in> set list \<Longrightarrow> e' \<in> set list \<Longrightarrow>
     eval_id e = eval_id e' \<Longrightarrow> e = e'"
  by (meson distinct_map inj_on_def)

lemma wf_construct:
  assumes wf: "registry_wf reg"
  shows "\<exists>reg'. eval_construct reg c = Inr reg' \<and> registry_wf reg' \<and>
           id_ctr reg' = id_ctr reg + 1 \<and>
           map eval_id (eval_list reg') = map eval_id (eval_list reg) @ [id_ctr reg + 1]"
proof -
  define i where "i = id_ctr reg + 1"
  define self where "self = \<lparr>eval_id = i, ctx = c, sequence = 0, parent = None, child = None,
                  eval_event = None, issue = None, eval_event_id = [], pdus = []\<rparr>"
  define list where "list = eval_list reg"
  have dist: "distinct (map eval_id list)"
    and bnd: "\<And>e. e \<in> set list \<Longrightarrow> eval_id e < i"
    and ch: "\<And>e k. e \<in> set list \<Longrightarrow> child e = Some k \<Longrightarrow>
          \<exists>ce \<in> set list. eval_id ce = k \<and> parent ce = Some (eval_id e) \<and>
              ctx ce = ctx e \<and> eval_id e < k"
    and pa: "\<And>e p. e \<in> set list \<Longrightarrow> parent e = Some p \<Longrightarrow>
          \<exists>pe \<in> set list. eval_id pe = p \<and> child pe = Some (eval_id e)"
    using wf unfolding registry_wf_def list_def i_def by (auto simp: less_Suc_eq_le)
  have self_simps: "eval_id self = i" "ctx self = c" "child self = None" "parent self = None"
    by (simp_all add: self_def)
  have fresh: "i \<notin> set (map eval_id list)" using bnd by auto
  show ?thesis
  proof (cases "find_parent (list @ [self]) i c")
    case None
    then have res: "eval_construct reg c = Inr \<lparr>eval_list = list @ [self], id_ctr = i\<rparr>"
      by (simp add: eval_construct_def Let_def i_def self_def list_def)
    have "registry_wf \<lparr>eval_list = list @ [self], id_ctr = i\<rparr>"
      unfolding registry_wf_def
    proof (intro conjI ballI allI impI)
      show "distinct (map eval_id (eval_list \<lparr>eval_list = list @ [self], id_ctr = i\<rparr>))"
        using dist fresh by (simp add: self_simps)
    next
      fix e assume "e \<in> set (eval_list \<lparr>eval_list = list @ [self], id_ctr = i\<rparr>)"
      then show "eval_id e \<le> id_ctr \<lparr>eval_list = list @ [self], id_ctr = i\<rparr>"
        using bnd by (auto simp: self_simps dest: less_imp_le)
    next
      fix e k assume "e \<in> set (eval_list \<lparr>eval_list = list @ [self], id_ctr = i\<rparr>)"
        "child e = Some k"
      then have "e \<in> set list" by (auto simp: self_simps)
      from ch[OF this \<open>child e = Some k\<close>]
      show "\<exists>ce\<in>set (eval_list \<lparr>eval_list = list @ [self], id_ctr = i\<rparr>).
            eval_id ce = k \<and> parent ce = Some (eval_id e) \<and> ctx ce = ctx e \<and> eval_id e < k"
        by auto
    next
      fix e p assume "e \<in> set (eval_list \<lparr>eval_list = list @ [self], id_ctr = i\<rparr>)"
        "parent e = Some p"
      then have "e \<in> set list" by (auto simp: self_simps)
      from pa[OF this \<open>parent e = Some p\<close>]
      show "\<exists>pe\<in>set (eval_list \<lparr>eval_list = list @ [self], id_ctr = i\<rparr>).
            eval_id pe = p \<and> child pe = Some (eval_id e)"
        by auto
    qed
    with res show ?thesis by (auto simp: i_def list_def self_simps)
  next
    case (Some pe)
    from find_parent_Some[OF Some] have pe: "pe \<in> set list" "ctx pe = c"
      and mx: "\<And>e. e \<in> set list \<Longrightarrow> ctx e = c \<Longrightarrow> eval_id e \<le> eval_id pe"
      using bnd by (auto simp: self_simps) 
    have pe_child: "child pe = None"
    proof (cases "child pe")
      case None then show ?thesis .
    next
      case (Some k)
      from ch[OF pe(1) Some] obtain ce where "ce \<in> set list" "ctx ce = ctx pe" "eval_id pe < eval_id ce"
        by auto
      with mx[of ce] pe(2) show ?thesis by simp
    qed
    define self' where "self' = self\<lparr>parent := Some (eval_id pe)\<rparr>"
    define upd where "upd = (\<lambda>e::eval. if eval_id e = eval_id pe then e\<lparr>child := Some i\<rparr> else e)"
    define list' where "list' = set_child (eval_id pe) (Some i) (list @ [self'])"
    have self'_simps: "eval_id self' = i" "ctx self' = c" "child self' = None"
      "parent self' = Some (eval_id pe)"
      by (simp_all add: self'_def self_def)
    have upd_simps: "\<And>e. eval_id (upd e) = eval_id e" "\<And>e. parent (upd e) = parent e"
      "\<And>e. ctx (upd e) = ctx e"
      by (simp_all add: upd_def)
    have pe_ne: "eval_id pe \<noteq> i" using bnd[OF pe(1)] by simp
    have set': "set list' = upd ` set list \<union> {self'}"
      unfolding list'_def set_set_child upd_def using pe_ne by (auto simp: self'_simps)
    have ids': "map eval_id list' = map eval_id list @ [i]"
      unfolding list'_def ids_set_child by (simp add: self'_simps)
    have res: "eval_construct reg c = Inr \<lparr>eval_list = list', id_ctr = i\<rparr>"
      using Some pe_child
      by (simp add: eval_construct_def Let_def i_def self_def list_def list'_def self'_def)
    have "registry_wf \<lparr>eval_list = list', id_ctr = i\<rparr>"
      unfolding registry_wf_def
    proof (intro conjI ballI allI impI)
      show "distinct (map eval_id (eval_list \<lparr>eval_list = list', id_ctr = i\<rparr>))"
        using dist fresh by (simp add: ids')
    next
      fix e assume "e \<in> set (eval_list \<lparr>eval_list = list', id_ctr = i\<rparr>)"
      then show "eval_id e \<le> id_ctr \<lparr>eval_list = list', id_ctr = i\<rparr>"
        using bnd by (fastforce simp: set' self'_simps upd_simps intro: less_imp_le)
    next
      fix e k assume e: "e \<in> set (eval_list \<lparr>eval_list = list', id_ctr = i\<rparr>)"
        and k: "child e = Some k"
      from e k obtain e0 where e0: "e0 \<in> set list" "e = upd e0"
        by (auto simp: set' self'_simps)
      show "\<exists>ce\<in>set (eval_list \<lparr>eval_list = list', id_ctr = i\<rparr>).
            eval_id ce = k \<and> parent ce = Some (eval_id e) \<and> ctx ce = ctx e \<and> eval_id e < k"
      proof (cases "eval_id e0 = eval_id pe")
        case True
        then have "k = i" using k e0 by (simp add: upd_def)
        moreover have "eval_id e = eval_id pe" "ctx e = c"
          using True e0 pe(2) distinct_ids_eq[OF dist e0(1) pe(1)] by (simp_all add: upd_simps)
        ultimately show ?thesis
          using bnd[OF pe(1)] by (auto simp: set' self'_simps intro!: bexI[of _ self'])
      next
        case False
        then have "e = e0" using e0 by (simp add: upd_def)
        with k ch[OF e0(1)] obtain ce where ce: "ce \<in> set list" "eval_id ce = k"
          "parent ce = Some (eval_id e)" "ctx ce = ctx e" "eval_id e < k" by blast
        then have "upd ce \<in> set list'" by (simp add: set')
        with ce show ?thesis by (auto simp: upd_simps intro!: bexI[of _ "upd ce"])
      qed
    next
      fix e p assume e: "e \<in> set (eval_list \<lparr>eval_list = list', id_ctr = i\<rparr>)"
        and p: "parent e = Some p"
      have pe': "upd pe \<in> set list'" "child (upd pe) = Some i" "eval_id (upd pe) = eval_id pe"
        using pe(1) by (simp_all add: set' upd_def)
      show "\<exists>pe\<in>set (eval_list \<lparr>eval_list = list', id_ctr = i\<rparr>).
            eval_id pe = p \<and> child pe = Some (eval_id e)"
      proof (cases "e = self'")
        case True
        with p pe' show ?thesis by (auto simp: self'_simps intro!: bexI[of _ "upd pe"])
      next
        case False
        with e obtain e0 where e0: "e0 \<in> set list" "e = upd e0" by (auto simp: set')
        with p have "parent e0 = Some p" by (simp add: upd_simps)
        from pa[OF e0(1) this] obtain q where q: "q \<in> set list" "eval_id q = p"
          "child q = Some (eval_id e0)" by blast
        have "eval_id q \<noteq> eval_id pe"
        proof
          assume "eval_id q = eval_id pe"
          from distinct_ids_eq[OF dist q(1) pe(1) this] q(3) pe_child show False by simp
        qed
        then have "upd q = q" by (simp add: upd_def)
        with q(1) have "q \<in> set list'" unfolding set' by force
        with q e0 show ?thesis by (auto simp: upd_simps)
      qed
    qed
    with res ids' show ?thesis by (auto simp: i_def list_def)
  qed
qed


lemma wf_destruct:
  assumes wf: "registry_wf reg" and res: "eval_destruct reg a = Inr reg'"
  shows "registry_wf reg'"
proof -
  define list where "list = eval_list reg"
  have dist: "distinct (map eval_id list)"
    and bnd: "\<And>e. e \<in> set list \<Longrightarrow> eval_id e \<le> id_ctr reg"
    and ch: "\<And>e k. e \<in> set list \<Longrightarrow> child e = Some k \<Longrightarrow>
          \<exists>ce \<in> set list. eval_id ce = k \<and> parent ce = Some (eval_id e) \<and>
              ctx ce = ctx e \<and> eval_id e < k"
    and pa: "\<And>e p. e \<in> set list \<Longrightarrow> parent e = Some p \<Longrightarrow>
          \<exists>pe \<in> set list. eval_id pe = p \<and> child pe = Some (eval_id e)"
    using wf unfolding registry_wf_def list_def by auto
  from res obtain self where lk: "lookup_eval list a = Some self"
    by (auto simp: eval_destruct_def list_def split: option.splits)
  from lookup_eval_Some[OF lk] have self: "self \<in> set list" "eval_id self = a" by auto
  from res lk have nochild: "child self = None"
    by (auto simp: eval_destruct_def list_def split: option.splits if_splits)
  define upd where "upd = (\<lambda>e::eval. if Some (eval_id e) = parent self then e\<lparr>child := None\<rparr> else e)"
  have upd_simps: "\<And>e. eval_id (upd e) = eval_id e" "\<And>e. parent (upd e) = parent e"
      "\<And>e. ctx (upd e) = ctx e"
    by (simp_all add: upd_def)
  have upd_child: "\<And>e k. child (upd e) = Some k \<Longrightarrow> upd e = e"
    by (auto simp: upd_def split: if_splits)
  have reg': "id_ctr reg' = id_ctr reg \<and> set (eval_list reg') = upd ` {e \<in> set list. eval_id e \<noteq> a}
      \<and> map eval_id (eval_list reg') = filter (\<lambda>i. i \<noteq> a) (map eval_id list)"
  proof (cases "parent self")
    case None
    then have "reg' = reg\<lparr>eval_list := filter (\<lambda>e. eval_id e \<noteq> a) list\<rparr>"
      using res lk nochild by (simp add: eval_destruct_def list_def)
    moreover have "\<And>e. upd e = e" using None by (simp add: upd_def)
    ultimately show ?thesis by (auto simp: filter_map comp_def)
  next
    case (Some p)
    then have "reg' = reg\<lparr>eval_list := filter (\<lambda>e. eval_id e \<noteq> a) (set_child p None list)\<rparr>"
      using res lk nochild
      by (auto simp: eval_destruct_def list_def split: option.splits if_splits)
    moreover have "set_child p None list = map upd list"
      using Some by (auto simp: set_child_def upd_def)
    ultimately show ?thesis
      by (auto simp: filter_map comp_def upd_simps)
  qed
  have parent_child: "\<And>p. parent self = Some p \<Longrightarrow> \<exists>pe \<in> set list. eval_id pe = p \<and> child pe = Some a"
    using pa[OF self(1)] self(2) by simp
  show ?thesis
    unfolding registry_wf_def
  proof (intro conjI ballI allI impI)
    show "distinct (map eval_id (eval_list reg'))"
      using reg' dist by simp
  next
    fix e assume "e \<in> set (eval_list reg')"
    then show "eval_id e \<le> id_ctr reg'" using reg' bnd by (auto simp: upd_simps)
  next
    fix e k assume e: "e \<in> set (eval_list reg')" and k: "child e = Some k"
    from e reg' obtain e0 where e0: "e0 \<in> set list" "eval_id e0 \<noteq> a" "e = upd e0" by auto
    with k upd_child have "e = e0" by simp
    with k ch[OF e0(1)] obtain ce where ce: "ce \<in> set list" "eval_id ce = k"
      "parent ce = Some (eval_id e)" "ctx ce = ctx e" "eval_id e < k" by blast
    have "Some (eval_id e0) \<noteq> parent self"
    proof
      assume "Some (eval_id e0) = parent self"
      then have "child (upd e0) = None" by (simp add: upd_def)
      with k e0(3) show False by simp
    qed
    with ce(3) \<open>e = e0\<close> have "ce \<noteq> self" by auto
    with distinct_ids_eq[OF dist ce(1) self(1)] self(2) have "eval_id ce \<noteq> a" by auto
    with ce(1) have "upd ce \<in> set (eval_list reg')" using reg' by auto
    with ce show "\<exists>ce\<in>set (eval_list reg').
            eval_id ce = k \<and> parent ce = Some (eval_id e) \<and> ctx ce = ctx e \<and> eval_id e < k"
      by (auto simp: upd_simps intro!: bexI[of _ "upd ce"])
  next
    fix e p assume e: "e \<in> set (eval_list reg')" and p: "parent e = Some p"
    from e reg' obtain e0 where e0: "e0 \<in> set list" "eval_id e0 \<noteq> a" "e = upd e0" by auto
    with p have "parent e0 = Some p" by (simp add: upd_simps)
    from pa[OF e0(1) this] obtain q where q: "q \<in> set list" "eval_id q = p"
      "child q = Some (eval_id e0)" by blast
    have "q \<noteq> self" using q(3) nochild by auto
    with distinct_ids_eq[OF dist q(1) self(1)] self(2) have qa: "eval_id q \<noteq> a" by auto
    have "Some (eval_id q) \<noteq> parent self"
    proof
      assume eq: "Some (eval_id q) = parent self"
      from parent_child[OF eq[symmetric]] obtain pe where pe: "pe \<in> set list"
        "eval_id pe = eval_id q" "child pe = Some a" by blast
      from distinct_ids_eq[OF dist pe(1) q(1) pe(2)] pe(3) q(3) e0(2) show False by simp
    qed
    then have "upd q = q" by (simp add: upd_def)
    with q(1) qa have "q \<in> set (eval_list reg')" using reg' by force
    with q e0 show "\<exists>pe\<in>set (eval_list reg'). eval_id pe = p \<and> child pe = Some (eval_id e)"
      by (auto simp: upd_simps)
  qed
qed

lemma wf_destruct_innermost:
  assumes wf: "registry_wf reg" and e: "e \<in> set (eval_list reg)"
    and inner: "innermost (eval_list reg) e"
  shows "\<exists>reg'. eval_destruct reg (eval_id e) = Inr reg'"
proof -
  from wf have dist: "distinct (map eval_id (eval_list reg))" by (simp add: registry_wf_def)
  have lk: "lookup_eval (eval_list reg) (eval_id e) = Some e"
    using lookup_eval_distinct[OF dist e] .
  have nochild: "child e = None"
  proof (cases "child e")
    case None then show ?thesis .
  next
    case (Some k)
    with wf e obtain ce where "ce \<in> set (eval_list reg)" "ctx ce = ctx e" "eval_id e < eval_id ce"
      unfolding registry_wf_def by blast
    with inner show ?thesis unfolding innermost_def by fastforce
  qed
  show ?thesis
  proof (cases "parent e")
    case None
    with lk nochild show ?thesis by (simp add: eval_destruct_def)
  next
    case (Some p)
    with wf e obtain pe where pe: "pe \<in> set (eval_list reg)" "eval_id pe = p"
      "child pe = Some (eval_id e)"
      unfolding registry_wf_def by blast
    from lookup_eval_distinct[OF dist pe(1)] pe(2) have "lookup_eval (eval_list reg) p = Some pe"
      by simp
    with lk nochild Some pe(3) show ?thesis by (simp add: eval_destruct_def)
  qed
qed

lemma wf_empty: "registry_wf empty_registry"
  by (simp add: registry_wf_def empty_registry_def)

lemma wf_apply_op: "registry_wf reg \<Longrightarrow> apply_eval_op reg x = Inr reg' \<Longrightarrow> registry_wf reg'"
proof (cases x)
  case (Construct c)
  assume wf: "registry_wf reg" and ap: "apply_eval_op reg x = Inr reg'"
  from wf_construct[OF wf, of c] obtain r where "eval_construct reg c = Inr r" "registry_wf r"
    by blast
  with ap Construct show ?thesis by simp
next
  case (Destruct a)
  assume wf: "registry_wf reg" and ap: "apply_eval_op reg x = Inr reg'"
  with Destruct have "eval_destruct reg a = Inr reg'" by simp
  from wf_destruct[OF wf this] show ?thesis .
qed

lemma wf_run: "registry_wf reg \<Longrightarrow> run_eval_ops reg ops = Inr reg' \<Longrightarrow> registry_wf reg'"
proof (induction ops arbitrary: reg)
  case Nil then show ?case by simp
next
  case (Cons x xs)
  from Cons.prems(2) obtain r where r: "apply_eval_op reg x = Inr r" "run_eval_ops r xs = Inr reg'"
    by (auto split: sum.splits)
  from Cons.IH[OF wf_apply_op[OF Cons.prems(1) r(1)] r(2)] show ?case .
qed

lemma find_parent_append_self:
  "eval_id self = a \<Longrightarrow> find_parent (list @ [self]) a c = find_parent list a c"
  by (simp add: find_parent_def find_parent_closure_def)

lemma construct_effect:
  assumes wf: "registry_wf reg" and res: "eval_construct reg c = Inr reg'"
  shows "id_ctr reg' = id_ctr reg + 1 \<and>
         map eval_id (eval_list reg') = map eval_id (eval_list reg) @ [id_ctr reg + 1] \<and>
         (\<exists>n \<in> set (eval_list reg').
            eval_id n = id_ctr reg + 1 \<and> ctx n = c \<and> child n = None \<and>
            parent n = map_option eval_id (find_parent (eval_list reg) (id_ctr reg + 1) c) \<and>
            (\<forall>e \<in> set (eval_list reg).
               if Some (eval_id e) = parent n
               then child e = None \<and> e\<lparr>child := Some (eval_id n)\<rparr> \<in> set (eval_list reg')
               else e \<in> set (eval_list reg')))"
proof -
  define i where "i = id_ctr reg + 1"
  define self where "self = \<lparr>eval_id = i, ctx = c, sequence = 0, parent = None, child = None,
                  eval_event = None, issue = None, eval_event_id = [], pdus = []\<rparr>"
  define list where "list = eval_list reg"
  have dist: "distinct (map eval_id list)"
    and bnd: "\<And>e. e \<in> set list \<Longrightarrow> eval_id e < i"
    using wf unfolding registry_wf_def list_def i_def by (auto simp: less_Suc_eq_le)
  have self_simps: "eval_id self = i" "ctx self = c" "child self = None" "parent self = None"
    by (simp_all add: self_def)
  have fp: "find_parent (list @ [self]) i c = find_parent list i c"
    by (rule find_parent_append_self) (simp add: self_simps)
  show ?thesis
  proof (cases "find_parent list i c")
    case None
    with res fp have reg': "reg' = \<lparr>eval_list = list @ [self], id_ctr = i\<rparr>"
      by (simp add: eval_construct_def Let_def i_def self_def list_def)
    have "self \<in> set (eval_list reg')" by (simp add: reg')
    moreover have "\<forall>e \<in> set list.
               if Some (eval_id e) = parent self
               then child e = None \<and> e\<lparr>child := Some (eval_id self)\<rparr> \<in> set (eval_list reg')
               else e \<in> set (eval_list reg')"
      by (simp add: reg' self_simps)
    ultimately show ?thesis
      unfolding i_def[symmetric] list_def[symmetric] using None reg' self_simps
      by (intro conjI bexI[of _ self]) simp_all
  next
    case (Some pe)
    from find_parent_Some[OF Some] have pe: "pe \<in> set list" by simp
    have pe_ne: "eval_id pe \<noteq> i" using bnd[OF pe] by simp
    define self' where "self' = self\<lparr>parent := Some (eval_id pe)\<rparr>"
    have self'_simps: "eval_id self' = i" "ctx self' = c" "child self' = None"
      "parent self' = Some (eval_id pe)"
      by (simp_all add: self'_def self_def)
    from res fp Some have pe_child: "child pe = None"
      and reg': "reg' = \<lparr>eval_list = set_child (eval_id pe) (Some i) (list @ [self']), id_ctr = i\<rparr>"
      by (auto simp: eval_construct_def Let_def i_def self_def list_def self'_def split: if_splits)
    have set': "set (eval_list reg') =
        (\<lambda>e. if eval_id e = eval_id pe then e\<lparr>child := Some i\<rparr> else e) ` set list \<union> {self'}"
      unfolding reg' using pe_ne by (auto simp: set_set_child self'_simps)
    have ids': "map eval_id (eval_list reg') = map eval_id list @ [i]"
      unfolding reg' by (simp add: ids_set_child self'_simps)
    have mem: "self' \<in> set (eval_list reg')" using set' by simp
    have others: "\<forall>e \<in> set list.
               if Some (eval_id e) = parent self'
               then child e = None \<and> e\<lparr>child := Some (eval_id self')\<rparr> \<in> set (eval_list reg')
               else e \<in> set (eval_list reg')"
    proof
      fix e assume e: "e \<in> set list"
      show "if Some (eval_id e) = parent self'
               then child e = None \<and> e\<lparr>child := Some (eval_id self')\<rparr> \<in> set (eval_list reg')
               else e \<in> set (eval_list reg')"
      proof (cases "eval_id e = eval_id pe")
        case True
        from distinct_ids_eq[OF dist e pe True] have "e = pe" .
        with pe pe_child True show ?thesis unfolding set' by (force simp: self'_simps)
      next
        case False
        with e show ?thesis unfolding set' by (force simp: self'_simps)
      qed
    qed
    show ?thesis
      unfolding i_def[symmetric] list_def[symmetric] using Some reg' self'_simps ids' mem others
      by (intro conjI bexI[of _ self']) simp_all
  qed
qed

lemma destruct_effect:
  assumes wf: "registry_wf reg" and res: "eval_destruct reg a = Inr reg'"
  shows "id_ctr reg' = id_ctr reg \<and>
         map eval_id (eval_list reg') = filter (\<lambda>i. i \<noteq> a) (map eval_id (eval_list reg)) \<and>
         (\<exists>self \<in> set (eval_list reg).
            eval_id self = a \<and> child self = None \<and>
            (\<forall>e \<in> set (eval_list reg). eval_id e \<noteq> a \<longrightarrow>
               (if Some (eval_id e) = parent self
                then child e = Some a \<and> e\<lparr>child := None\<rparr> \<in> set (eval_list reg')
                else e \<in> set (eval_list reg'))))"
proof -
  define list where "list = eval_list reg"
  have dist: "distinct (map eval_id list)"
    using wf unfolding registry_wf_def list_def by auto
  from res obtain self where lk: "lookup_eval list a = Some self"
    by (auto simp: eval_destruct_def list_def split: option.splits)
  from lookup_eval_Some[OF lk] have self: "self \<in> set list" "eval_id self = a" by auto
  from res lk have nochild: "child self = None"
    by (auto simp: eval_destruct_def list_def split: option.splits if_splits)
  define upd where "upd = (\<lambda>e::eval. if Some (eval_id e) = parent self then e\<lparr>child := None\<rparr> else e)"
  have upd_id: "\<And>e. eval_id (upd e) = eval_id e" by (simp add: upd_def)
  have reg': "id_ctr reg' = id_ctr reg \<and> set (eval_list reg') = upd ` {e \<in> set list. eval_id e \<noteq> a}
      \<and> map eval_id (eval_list reg') = filter (\<lambda>i. i \<noteq> a) (map eval_id list)"
  proof (cases "parent self")
    case None
    then have "reg' = reg\<lparr>eval_list := filter (\<lambda>e. eval_id e \<noteq> a) list\<rparr>"
      using res lk nochild by (simp add: eval_destruct_def list_def)
    moreover have "\<And>e. upd e = e" using None by (simp add: upd_def)
    ultimately show ?thesis by (auto simp: filter_map comp_def)
  next
    case (Some p)
    then have "reg' = reg\<lparr>eval_list := filter (\<lambda>e. eval_id e \<noteq> a) (set_child p None list)\<rparr>"
      using res lk nochild
      by (auto simp: eval_destruct_def list_def split: option.splits if_splits)
    moreover have "set_child p None list = map upd list"
      using Some by (auto simp: set_child_def upd_def)
    ultimately show ?thesis
      by (auto simp: filter_map comp_def upd_id)
  qed
  have pchild: "\<And>e. e \<in> set list \<Longrightarrow> Some (eval_id e) = parent self \<Longrightarrow> child e = Some a"
  proof -
    fix e assume e: "e \<in> set list" and p: "Some (eval_id e) = parent self"
    from res lk nochild p[symmetric] obtain pe where
      lp: "lookup_eval list (eval_id e) = Some pe" and c: "child pe = Some a"
      by (auto simp: eval_destruct_def list_def split: option.splits if_splits)
    from lookup_eval_Some[OF lp] have "pe \<in> set list" "eval_id pe = eval_id e" by auto
    from distinct_ids_eq[OF dist this(1) e this(2)] c show "child e = Some a" by simp
  qed
  have others: "\<forall>e \<in> set list. eval_id e \<noteq> a \<longrightarrow>
               (if Some (eval_id e) = parent self
                then child e = Some a \<and> e\<lparr>child := None\<rparr> \<in> set (eval_list reg')
                else e \<in> set (eval_list reg'))"
  proof (intro ballI impI)
    fix e assume e: "e \<in> set list" and ne: "eval_id e \<noteq> a"
    then have "upd e \<in> set (eval_list reg')" using reg' by auto
    then show "if Some (eval_id e) = parent self
                then child e = Some a \<and> e\<lparr>child := None\<rparr> \<in> set (eval_list reg')
                else e \<in> set (eval_list reg')"
      using pchild[OF e] by (auto simp: upd_def)
  qed
  show ?thesis
    unfolding list_def[symmetric] using reg' self nochild others
    by (intro conjI bexI[of _ self]) simp_all
qed

lemma destruct_with_child_fails:
  assumes wf: "registry_wf reg" and e: "e \<in> set (eval_list reg)" and c: "child e \<noteq> None"
  shows "eval_destruct reg (eval_id e) = Inl assertion_failed"
proof -
  from wf have dist: "distinct (map eval_id (eval_list reg))" by (simp add: registry_wf_def)
  from lookup_eval_distinct[OF dist e] c show ?thesis by (simp add: eval_destruct_def)
qed


lemma find_parent_newest:
  assumes bnd: "\<forall>e \<in> set list. eval_id e \<noteq> a"
  shows "case find_parent list a c of
           None \<Rightarrow> \<forall>e \<in> set list. ctx e \<noteq> c
         | Some pe \<Rightarrow> pe \<in> set list \<and> ctx pe = c \<and>
                      (\<forall>e \<in> set list. ctx e = c \<longrightarrow> eval_id e \<le> eval_id pe)"
proof (cases "find_parent list a c")
  case None
  with find_parent_None[OF None] bnd show ?thesis by auto
next
  case (Some pe)
  with find_parent_Some[OF Some] bnd show ?thesis by auto
qed

text \<open>
  Claim C4. In every registry state reached from the empty registry by constructions and
  destructions that pass their assertions, every live eval has no child, or its child is
  a live eval whose parent pointer names it. In such a state the constructor's assertion
  never fails, and neither do the destructor's when the eval destroyed is the innermost
  of its task, that is under destruction in LIFO order per task. A construction links a
  new eval with the next id and no child at the end of the list; its parent is what
  \<open>find_parent\<close> returns, the live eval of the task with the highest id, or none when
  the task has no live eval; that parent had no child and now has the new eval as its
  child, and every other eval is unchanged. A destruction removes the eval, which has no
  child; its parent, if any, had it as child and now has none, and every other eval is
  unchanged. The destruction of an eval that has a child fails its assertion.
\<close>

theorem eval_child_parent_invariant:
  assumes "run_eval_ops empty_registry ops = Inr reg"
  shows "(\<forall>e \<in> set (eval_list reg).
            child e = None \<or>
            (\<exists>ce \<in> set (eval_list reg). child e = Some (eval_id ce) \<and> parent ce = Some (eval_id e))) \<and>
         (\<forall>c. \<exists>reg'. eval_construct reg c = Inr reg') \<and>
         (\<forall>e \<in> set (eval_list reg). innermost (eval_list reg) e \<longrightarrow>
            (\<exists>reg'. eval_destruct reg (eval_id e) = Inr reg')) \<and>
         (\<forall>c reg'. eval_construct reg c = Inr reg' \<longrightarrow>
            id_ctr reg' = id_ctr reg + 1 \<and>
            map eval_id (eval_list reg') = map eval_id (eval_list reg) @ [id_ctr reg + 1] \<and>
            (\<exists>n \<in> set (eval_list reg').
               eval_id n = id_ctr reg + 1 \<and> ctx n = c \<and> child n = None \<and>
               parent n = map_option eval_id (find_parent (eval_list reg) (id_ctr reg + 1) c) \<and>
               (\<forall>e \<in> set (eval_list reg).
                  if Some (eval_id e) = parent n
                  then child e = None \<and> e\<lparr>child := Some (eval_id n)\<rparr> \<in> set (eval_list reg')
                  else e \<in> set (eval_list reg'))) \<and>
            (case find_parent (eval_list reg) (id_ctr reg + 1) c of
               None \<Rightarrow> \<forall>e \<in> set (eval_list reg). ctx e \<noteq> c
             | Some pe \<Rightarrow> pe \<in> set (eval_list reg) \<and> ctx pe = c \<and>
                 (\<forall>e \<in> set (eval_list reg). ctx e = c \<longrightarrow> eval_id e \<le> eval_id pe))) \<and>
         (\<forall>a reg'. eval_destruct reg a = Inr reg' \<longrightarrow>
            id_ctr reg' = id_ctr reg \<and>
            map eval_id (eval_list reg') = filter (\<lambda>i. i \<noteq> a) (map eval_id (eval_list reg)) \<and>
            (\<exists>self \<in> set (eval_list reg).
               eval_id self = a \<and> child self = None \<and>
               (\<forall>e \<in> set (eval_list reg). eval_id e \<noteq> a \<longrightarrow>
                  (if Some (eval_id e) = parent self
                   then child e = Some a \<and> e\<lparr>child := None\<rparr> \<in> set (eval_list reg')
                   else e \<in> set (eval_list reg'))))) \<and>
         (\<forall>e \<in> set (eval_list reg). child e \<noteq> None \<longrightarrow>
            eval_destruct reg (eval_id e) = Inl assertion_failed)"
proof -
  have wf: "registry_wf reg" using wf_run[OF wf_empty assms] .
  have 1: "\<forall>e \<in> set (eval_list reg).
            child e = None \<or>
            (\<exists>ce \<in> set (eval_list reg). child e = Some (eval_id ce) \<and> parent ce = Some (eval_id e))"
  proof
    fix e assume e: "e \<in> set (eval_list reg)"
    show "child e = None \<or>
            (\<exists>ce \<in> set (eval_list reg). child e = Some (eval_id ce) \<and> parent ce = Some (eval_id e))"
    proof (cases "child e")
      case None then show ?thesis by simp
    next
      case (Some k)
      with wf e obtain ce where "ce \<in> set (eval_list reg)" "eval_id ce = k"
        "parent ce = Some (eval_id e)" unfolding registry_wf_def by blast
      with Some show ?thesis by auto
    qed
  qed
  have 2: "\<forall>c. \<exists>reg'. eval_construct reg c = Inr reg'"
    using wf_construct[OF wf] by blast
  have 3: "\<forall>e \<in> set (eval_list reg). innermost (eval_list reg) e \<longrightarrow>
            (\<exists>reg'. eval_destruct reg (eval_id e) = Inr reg')"
    using wf_destruct_innermost[OF wf] by blast
  have fresh: "\<forall>e \<in> set (eval_list reg). eval_id e \<noteq> id_ctr reg + 1"
    using wf unfolding registry_wf_def by fastforce
  have 4: "\<forall>c reg'. eval_construct reg c = Inr reg' \<longrightarrow>
            id_ctr reg' = id_ctr reg + 1 \<and>
            map eval_id (eval_list reg') = map eval_id (eval_list reg) @ [id_ctr reg + 1] \<and>
            (\<exists>n \<in> set (eval_list reg').
               eval_id n = id_ctr reg + 1 \<and> ctx n = c \<and> child n = None \<and>
               parent n = map_option eval_id (find_parent (eval_list reg) (id_ctr reg + 1) c) \<and>
               (\<forall>e \<in> set (eval_list reg).
                  if Some (eval_id e) = parent n
                  then child e = None \<and> e\<lparr>child := Some (eval_id n)\<rparr> \<in> set (eval_list reg')
                  else e \<in> set (eval_list reg'))) \<and>
            (case find_parent (eval_list reg) (id_ctr reg + 1) c of
               None \<Rightarrow> \<forall>e \<in> set (eval_list reg). ctx e \<noteq> c
             | Some pe \<Rightarrow> pe \<in> set (eval_list reg) \<and> ctx pe = c \<and>
                 (\<forall>e \<in> set (eval_list reg). ctx e = c \<longrightarrow> eval_id e \<le> eval_id pe))"
    using construct_effect[OF wf] find_parent_newest[OF fresh] by blast
  have 5: "\<forall>a reg'. eval_destruct reg a = Inr reg' \<longrightarrow>
            id_ctr reg' = id_ctr reg \<and>
            map eval_id (eval_list reg') = filter (\<lambda>i. i \<noteq> a) (map eval_id (eval_list reg)) \<and>
            (\<exists>self \<in> set (eval_list reg).
               eval_id self = a \<and> child self = None \<and>
               (\<forall>e \<in> set (eval_list reg). eval_id e \<noteq> a \<longrightarrow>
                  (if Some (eval_id e) = parent self
                   then child e = Some a \<and> e\<lparr>child := None\<rparr> \<in> set (eval_list reg')
                   else e \<in> set (eval_list reg'))))"
    using destruct_effect[OF wf] by blast
  have 6: "\<forall>e \<in> set (eval_list reg). child e \<noteq> None \<longrightarrow>
            eval_destruct reg (eval_id e) = Inl assertion_failed"
    using destruct_with_child_fails[OF wf] by blast
  show ?thesis
    apply (rule conjI[OF 1])
    apply (rule conjI[OF 2])
    apply (rule conjI[OF 3])
    apply (rule conjI[OF 4])
    apply (rule conjI[OF 5])
    apply (rule 6)
    done
qed

theorem eval_child_parent_invariant_witness:
  "(\<exists>reg. run_eval_ops empty_registry [Construct 0, Construct 0, Construct 1, Destruct 2] = Inr reg \<and>
      map eval_id (eval_list reg) = [1, 3] \<and>
      map child (eval_list reg) = [None, None] \<and>
      map parent (eval_list reg) = [None, None] \<and>
      (\<exists>reg'. eval_construct reg 0 = Inr reg')) \<and>
   (\<exists>reg. run_eval_ops empty_registry [Construct 0, Construct 0] = Inr reg \<and>
      map eval_id (eval_list reg) = [1, 2] \<and>
      map child (eval_list reg) = [Some 2, None] \<and>
      map parent (eval_list reg) = [None, Some 1] \<and>
      eval_destruct reg 1 = Inl assertion_failed \<and>
      (\<exists>reg'. eval_destruct reg 2 = Inr reg' \<and>
         map eval_id (eval_list reg') = [1] \<and> map child (eval_list reg') = [None]))"
proof -
  let ?e = "\<lambda>i c p ch. \<lparr>eval_id = i, ctx = c, sequence = 0, parent = p, child = ch,
             eval_event = None, issue = None, eval_event_id = [], pdus = []\<rparr>"
  have run1: "run_eval_ops empty_registry [Construct 0, Construct 0, Construct 1, Destruct 2] =
    Inr \<lparr>eval_list = [?e 1 0 None None, ?e 3 1 None None], id_ctr = 3\<rparr>"
    by (simp add: eval_construct_def eval_destruct_def empty_registry_def find_parent_def
        find_parent_closure_def set_child_def lookup_eval_def Let_def)
  have run2: "run_eval_ops empty_registry [Construct 0, Construct 0] =
    Inr \<lparr>eval_list = [?e 1 0 None (Some 2), ?e 2 0 (Some 1) None], id_ctr = 2\<rparr>"
    by (simp add: eval_construct_def eval_destruct_def empty_registry_def find_parent_def
        find_parent_closure_def set_child_def lookup_eval_def Let_def)
  have d2: "eval_destruct \<lparr>eval_list = [?e 1 0 None (Some 2), ?e 2 0 (Some 1) None], id_ctr = 2\<rparr> 2
      = Inr \<lparr>eval_list = [?e 1 0 None None], id_ctr = 2\<rparr>"
    by (simp add: eval_destruct_def set_child_def lookup_eval_def)
  note c1 = eval_child_parent_invariant[OF run1, THEN conjunct2, THEN conjunct1]
  note f2 = eval_child_parent_invariant[OF run2, THEN conjunct2, THEN conjunct2, THEN conjunct2,
      THEN conjunct2, THEN conjunct2, THEN bspec, of "?e 1 0 None (Some 2)"]
  have d1: "eval_destruct \<lparr>eval_list = [?e 1 0 None (Some 2), ?e 2 0 (Some 1) None], id_ctr = 2\<rparr> 1
      = Inl assertion_failed"
    using f2 by simp
  from c1 run1 run2 d1 d2 show ?thesis by simp
qed

section \<open>Batch construction and key prefetch\<close>

lemma event_less_keys:
  "event_less a b \<longleftrightarrow>
     ev_depth a < ev_depth b \<or>
     (ev_depth a = ev_depth b \<and>
        (ev_origin_server_ts a < ev_origin_server_ts b \<or>
         (ev_origin_server_ts a = ev_origin_server_ts b \<and> ev_event_id a < ev_event_id b)))"
  by (auto simp: event_less_def event_key_def less_prod_def)

lemma sorted_std_sort: "sorted (map event_key (std_sort_events events))"
  by (simp add: std_sort_events_def)

lemma sorted_wrt_std_sort:
  "sorted_wrt (\<lambda>a b. \<not> event_less b a) (std_sort_events events)"
proof -
  have "sorted_wrt (\<lambda>a b. event_key a \<le> event_key b) (std_sort_events events)"
    using sorted_std_sort[of events] by (simp add: sorted_map)
  then show ?thesis
    by (rule sorted_wrt_mono_rel[rotated]) (auto simp: event_less_def)
qed

lemma mset_std_sort: "mset (std_sort_events events) = mset events"
  by (simp add: std_sort_events_def)

text \<open>
  Claim C5. Without \<open>opts.ordered\<close> the events that the batch constructor hands to
  \<open>execute\<close> are sorted by \<open>depth\<close>, then \<open>origin_server_ts\<close>, then \<open>event_id\<close>;
  an input longer than \<open>opts.limit\<close> leaves exactly \<open>opts.limit\<close> events, and in every
  case the events processed are the first \<open>opts.limit\<close> events of the input, as a
  multiset.
\<close>

theorem eval_batch_sorted_truncated:
  "(\<not> ordered opts \<longrightarrow>
      sorted (map event_key (eval_batch opts array)) \<and>
      sorted_wrt (\<lambda>a b. \<not> event_less b a) (eval_batch opts array)) \<and>
   (limit opts < length array \<longrightarrow> length (eval_batch opts array) = limit opts) \<and>
   mset (eval_batch opts array) = mset (take (limit opts) array) \<and>
   (\<forall>a b. event_less a b \<longleftrightarrow>
      ev_depth a < ev_depth b \<or>
      (ev_depth a = ev_depth b \<and>
        (ev_origin_server_ts a < ev_origin_server_ts b \<or>
         (ev_origin_server_ts a = ev_origin_server_ts b \<and> ev_event_id a < ev_event_id b))))"
proof -
  have len: "length (std_sort_events xs) = length xs" for xs
    by (simp add: std_sort_events_def)
  have 1: "\<not> ordered opts \<longrightarrow>
      sorted (map event_key (eval_batch opts array)) \<and>
      sorted_wrt (\<lambda>a b. \<not> event_less b a) (eval_batch opts array)"
    by (simp add: eval_batch_def Let_def sorted_std_sort sorted_wrt_std_sort)
  have 2: "limit opts < length array \<longrightarrow> length (eval_batch opts array) = limit opts"
    by (simp add: eval_batch_def Let_def len)
  have 3: "mset (eval_batch opts array) = mset (take (limit opts) array)"
    by (simp add: eval_batch_def Let_def mset_std_sort)
  from 1 2 3 event_less_keys show ?thesis by blast
qed

theorem eval_batch_sorted_truncated_witness:
  "eval_batch \<lparr>limit = 3, ordered = False, node_id = []\<rparr>
     [example_pdu 2 5 ''$b'' ''remote.org'' [], example_pdu 2 5 ''$a'' ''remote.org'' [],
      example_pdu 1 9 ''$c'' ''remote.org'' [], example_pdu 0 0 ''$d'' ''remote.org'' []]
   = [example_pdu 1 9 ''$c'' ''remote.org'' [], example_pdu 2 5 ''$a'' ''remote.org'' [],
      example_pdu 2 5 ''$b'' ''remote.org'' []] \<and>
   length (eval_batch \<lparr>limit = 3, ordered = False, node_id = []\<rparr>
     [example_pdu 2 5 ''$b'' ''remote.org'' [], example_pdu 2 5 ''$a'' ''remote.org'' [],
      example_pdu 1 9 ''$c'' ''remote.org'' [], example_pdu 0 0 ''$d'' ''remote.org'' []]) = 3"
  using eval_batch_sorted_truncated[of "\<lparr>limit = 3, ordered = False, node_id = []\<rparr>"
     "[example_pdu 2 5 ''$b'' ''remote.org'' [], example_pdu 2 5 ''$a'' ''remote.org'' [],
      example_pdu 1 9 ''$c'' ''remote.org'' [], example_pdu 0 0 ''$d'' ''remote.org'' []]"]
  by (simp add: eval_batch_def std_sort_events_def event_key_def example_pdu_def
      less_eq_prod_def less_prod_def)


lemma set_set_emplace: "set (set_emplace k ks) = insert k (set ks)"
  by (auto simp: set_emplace_def set_insort_key)

lemma sorted_set_emplace: "sorted ks \<Longrightarrow> sorted (set_emplace k ks)"
  by (simp add: set_emplace_def sorted_insort)

lemma distinct_set_emplace: "distinct ks \<Longrightarrow> distinct (set_emplace k ks)"
  by (simp add: set_emplace_def distinct_insort)

lemma inner_fold:
  "set (foldl (\<lambda>m (key_id, signature).
                 if \<not> cache_has origin key_id then set_emplace (origin, key_id) m else m)
          m signatures)
     = set m \<union> {(origin, k) | k. k \<in> fst ` set signatures \<and> \<not> cache_has origin k}"
  by (induction signatures arbitrary: m) (auto simp: set_set_emplace split: prod.splits, force+)

lemma inner_fold_ok:
  "sorted m \<and> distinct m \<Longrightarrow>
   sorted (foldl (\<lambda>m (key_id, signature).
                 if \<not> cache_has origin key_id then set_emplace (origin, key_id) m else m)
          m signatures) \<and>
   distinct (foldl (\<lambda>m (key_id, signature).
                 if \<not> cache_has origin key_id then set_emplace (origin, key_id) m else m)
          m (signatures :: (string \<times> string) list))"
  by (induction signatures arbitrary: m)
     (auto simp: sorted_set_emplace distinct_set_emplace split: prod.splits)

lemma outer_fold:
  "set (foldl (\<lambda>m (server_name, signatures).
          foldl (\<lambda>m (key_id, signature).
                   if \<not> cache_has origin key_id then set_emplace (origin, key_id) m else m)
            m signatures) m sigs)
     = set m \<union> {(origin, k) | k. (\<exists>sn sg s. (sn, sg) \<in> set sigs \<and> (k, s) \<in> set sg)
                                  \<and> \<not> cache_has origin k}"
proof (induction sigs arbitrary: m)
  case Nil then show ?case by simp
next
  case (Cons x sigs)
  obtain sn sg where x: "x = (sn, sg)" by (cases x)
  show ?case
    unfolding x by (simp add: Cons.IH inner_fold) (auto, force+)
qed

lemma outer_fold_ok:
  "sorted m \<and> distinct m \<Longrightarrow>
   sorted (foldl (\<lambda>m (server_name, signatures).
          foldl (\<lambda>m (key_id, signature).
                   if \<not> cache_has origin key_id then set_emplace (origin, key_id) m else m)
            m signatures) m sigs) \<and>
   distinct (foldl (\<lambda>m (server_name, signatures).
          foldl (\<lambda>m (key_id, signature).
                   if \<not> cache_has origin key_id then set_emplace (origin, key_id) m else m)
            m signatures) m (sigs :: (string \<times> (string \<times> string) list) list))"
proof (induction sigs arbitrary: m)
  case Nil then show ?case by simp
next
  case (Cons x sigs)
  obtain sn sg where x: "x = (sn, sg)" by (cases x)
  from Cons.IH[OF inner_fold_ok[OF Cons.prems, of cache_has origin sg]]
  show ?case unfolding x by simp
qed

lemma mfetch_keys_event_set:
  assumes "mfetch_keys_event cache_has opts miss e = Inr miss'"
  shows "set miss' = set miss \<union> event_wanted cache_has opts e"
    and "sorted miss \<and> distinct miss \<Longrightarrow> sorted miss' \<and> distinct miss'"
proof -
  from assms obtain origin where o: "event_origin e = Inr origin"
    by (auto simp: mfetch_keys_event_def split: sum.splits)
  show "set miss' = set miss \<union> event_wanted cache_has opts e"
  proof (cases "node_id opts \<noteq> [] \<and> node_id opts \<noteq> origin")
    case True
    with assms o have "miss' = miss" by (simp add: mfetch_keys_event_def)
    moreover from True o have "event_wanted cache_has opts e = {}"
      by (auto simp: event_wanted_def)
    ultimately show ?thesis by simp
  next
    case False
    with assms o obtain sigs where sigs: "ev_signatures e = Some sigs"
      by (auto simp: mfetch_keys_event_def split: option.splits)
    with assms o False have "miss' = foldl (\<lambda>m (server_name, signatures).
          foldl (\<lambda>m (key_id, signature).
                   if \<not> cache_has origin key_id then set_emplace (origin, key_id) m else m)
            m signatures) miss sigs"
      by (auto simp: mfetch_keys_event_def)
    then have "set miss' = set miss \<union> {(origin, k) | k. (\<exists>sn sg s. (sn, sg) \<in> set sigs \<and> (k, s) \<in> set sg)
                                  \<and> \<not> cache_has origin k}"
      by (simp add: outer_fold)
    moreover have "event_wanted cache_has opts e = {(origin, k) | k. (\<exists>sn sg s. (sn, sg) \<in> set sigs \<and> (k, s) \<in> set sg)
                                  \<and> \<not> cache_has origin k}"
      using False o sigs by (auto simp: event_wanted_def event_key_ids_def)
    ultimately show ?thesis by simp
  qed
  show "sorted miss \<and> distinct miss \<Longrightarrow> sorted miss' \<and> distinct miss'"
    using assms o outer_fold_ok[of miss cache_has origin]
    by (auto simp: mfetch_keys_event_def split: if_splits option.splits)
qed

lemma mfetch_keys_miss_set:
  "mfetch_keys_miss cache_has opts miss es = Inr miss' \<Longrightarrow>
     set miss' = set miss \<union> (\<Union>e \<in> set es. event_wanted cache_has opts e) \<and>
     (sorted miss \<and> distinct miss \<longrightarrow> sorted miss' \<and> distinct miss')"
proof (induction es arbitrary: miss)
  case Nil then show ?case by simp
next
  case (Cons e es)
  from Cons.prems obtain m where m: "mfetch_keys_event cache_has opts miss e = Inr m"
    "mfetch_keys_miss cache_has opts m es = Inr miss'"
    by (auto split: sum.splits)
  from Cons.IH[OF m(2)] mfetch_keys_event_set[OF m(1)] show ?case by auto
qed

text \<open>
  Claim C8. When \<open>mfetch_keys\<close> returns, it has called the batched key fetch exactly
  when some key is wanted, and then with the wanted keys, sorted and without repetition.
  Every query names a key that the cache lacks, taken from the signatures of an event
  whose origin is the query's server; with \<open>opts.node_id\<close> set, the server of every
  query is that node, so events of another origin contribute nothing.
\<close>

theorem mfetch_keys_queries:
  assumes "mfetch_keys cache_has opts this = Inr r"
  shows "(r = None \<longleftrightarrow> (\<Union>e \<in> set (pdus this). event_wanted cache_has opts e) = {}) \<and>
         (\<forall>queries. r = Some queries \<longrightarrow>
            sorted queries \<and> distinct queries \<and>
            set queries = (\<Union>e \<in> set (pdus this). event_wanted cache_has opts e) \<and>
            (\<forall>(server, key_id) \<in> set queries.
               \<not> cache_has server key_id \<and>
               (node_id opts \<noteq> [] \<longrightarrow> server = node_id opts) \<and>
               (\<exists>e \<in> set (pdus this). event_origin e = Inr server \<and> key_id \<in> event_key_ids e)))"
proof -
  from assms obtain miss where miss: "mfetch_keys_miss cache_has opts [] (pdus this) = Inr miss"
    and r: "r = (if miss = [] then None else Some miss)"
    by (auto simp: mfetch_keys_def split: sum.splits if_splits)
  from mfetch_keys_miss_set[OF miss]
  have s: "set miss = (\<Union>e \<in> set (pdus this). event_wanted cache_has opts e)"
    and sd: "sorted miss" "distinct miss" by auto
  have 1: "r = None \<longleftrightarrow> (\<Union>e \<in> set (pdus this). event_wanted cache_has opts e) = {}"
    using r s by (metis option.distinct(1) set_empty)
  have 2: "\<forall>(server, key_id) \<in> set miss.
               \<not> cache_has server key_id \<and>
               (node_id opts \<noteq> [] \<longrightarrow> server = node_id opts) \<and>
               (\<exists>e \<in> set (pdus this). event_origin e = Inr server \<and> key_id \<in> event_key_ids e)"
    unfolding s by (auto simp: event_wanted_def)
  from 1 2 r s sd show ?thesis by (auto split: if_splits)
qed

theorem mfetch_keys_queries_witness:
  "mfetch_keys (\<lambda>s k. s = ''remote.org'' \<and> k = ''ed25519:1'')
     \<lparr>limit = 8, ordered = False, node_id = ''remote.org''\<rparr>
     ((example_eval 1 0 None ''$X'')
        \<lparr>pdus := [example_pdu 1 5 ''$a'' ''remote.org'' [''ed25519:1'', ''ed25519:2''],
                  example_pdu 2 6 ''$b'' ''other.org'' [''ed25519:9'']]\<rparr>)
     = Inr (Some [(''remote.org'', ''ed25519:2'')]) \<and>
   mfetch_keys (\<lambda>s k. True)
     \<lparr>limit = 8, ordered = False, node_id = []\<rparr>
     ((example_eval 1 0 None ''$X'')
        \<lparr>pdus := [example_pdu 1 5 ''$a'' ''remote.org'' [''ed25519:1'', ''ed25519:2'']]\<rparr>)
     = Inr None"
proof -
  have a: "mfetch_keys (\<lambda>s k. s = ''remote.org'' \<and> k = ''ed25519:1'')
     \<lparr>limit = 8, ordered = False, node_id = ''remote.org''\<rparr>
     ((example_eval 1 0 None ''$X'')
        \<lparr>pdus := [example_pdu 1 5 ''$a'' ''remote.org'' [''ed25519:1'', ''ed25519:2''],
                  example_pdu 2 6 ''$b'' ''other.org'' [''ed25519:9'']]\<rparr>)
     = Inr (Some [(''remote.org'', ''ed25519:2'')])"
    by (simp add: mfetch_keys_def mfetch_keys_event_def event_origin_def set_emplace_def
        example_eval_def example_pdu_def)
  have b: "mfetch_keys (\<lambda>s k. True)
     \<lparr>limit = 8, ordered = False, node_id = []\<rparr>
     ((example_eval 1 0 None ''$X'')
        \<lparr>pdus := [example_pdu 1 5 ''$a'' ''remote.org'' [''ed25519:1'', ''ed25519:2'']]\<rparr>)
     = Inr None"
    by (simp add: mfetch_keys_def mfetch_keys_event_def event_origin_def set_emplace_def
        example_eval_def example_pdu_def)
  from mfetch_keys_queries[OF a] mfetch_keys_queries[OF b] a b show ?thesis by simp
qed

section \<open>Origin selection and the start loop\<close>

lemma origins_random_Some:
  "origins_random env w rid prof = (Some x, w') \<Longrightarrow>
     x \<in> set (room_origins env rid) \<and> prof x \<and> issued w' = issued w \<and> ticks w' = ticks w"
proof -
  assume a: "origins_random env w rid prof = (Some x, w')"
  let ?c = "filter prof (room_origins env rid)"
  from a have ne: "?c \<noteq> []" and x: "x = ?c ! (rand_integer env (draws w) mod length ?c)"
    and w': "w' = w\<lparr>draws := draws w + 1\<rparr>"
    by (auto simp: origins_random_def Let_def split: if_splits)
  from ne have "rand_integer env (draws w) mod length ?c < length ?c" by simp
  then have "x \<in> set ?c" unfolding x by (rule nth_mem)
  with w' show ?thesis by simp
qed

lemma origins_random_None:
  "origins_random env w rid prof = (None, w') \<longleftrightarrow>
     (\<forall>x \<in> set (room_origins env rid). \<not> prof x) \<and> w' = w"
  by (auto simp: origins_random_def Let_def filter_empty_conv)

lemma proffer_iff:
  "proffer env request x \<longleftrightarrow> \<not> my_host env x \<and> x \<notin> req_attempted request \<and> errmsg env x = []"
  by (simp add: proffer_def)

lemma select_random_origin_Inr:
  assumes "select_random_origin env request w = (Inr x, request', w')"
  shows "x \<in> set (room_origins env (req_room_id request))"
    and "\<not> my_host env x" and "x \<notin> req_attempted request" and "errmsg env x = []"
    and "x \<noteq> []"
    and "request' = request\<lparr>req_origin := x, req_attempted := insert x (req_attempted request)\<rparr>"
    and "issued w' = issued w" and "ticks w' = ticks w"
proof -
  let ?r0 = "request\<lparr>req_origin := []\<rparr>"
  from assms obtain y where y: "origins_random env w (req_room_id ?r0) (proffer env ?r0) = (Some y, w')"
    and r: "request' = select_origin ?r0 y" "req_origin (select_origin ?r0 y) \<noteq> []"
      "x = req_origin (select_origin ?r0 y)"
    by (auto simp: select_random_origin_def Let_def split: prod.splits option.splits if_splits)
  have xy: "x = y" using r(3) by (simp add: select_origin_def)
  from origins_random_Some[OF y] xy
  show "x \<in> set (room_origins env (req_room_id request))"
    and "\<not> my_host env x" and "x \<notin> req_attempted request" and "errmsg env x = []"
    and "issued w' = issued w" and "ticks w' = ticks w"
    by (simp_all add: proffer_iff)
  show "x \<noteq> []" using r(2,3) by simp
  show "request' = request\<lparr>req_origin := x, req_attempted := insert x (req_attempted request)\<rparr>"
    using r(1) xy by (simp add: select_origin_def)
qed

lemma select_random_origin_Inl:
  assumes "select_random_origin env request w = (Inl e, request', w')"
  shows "e = M_NOT_FOUND" and "issued w' = issued w" and "ticks w' = ticks w"
    and "req_started request' = req_started request"
    and "req_last request' = req_last request"
    and "req_finished request' = req_finished request"
  using assms
  by (auto simp: select_random_origin_def origins_random_def select_origin_def Let_def
      split: prod.splits option.splits if_splits)

lemma select_random_origin_none:
  assumes "\<forall>x \<in> set (room_origins env (req_room_id request)).
             my_host env x \<or> x \<in> req_attempted request \<or> errmsg env x \<noteq> []"
  shows "fst (select_random_origin env request w) = Inl M_NOT_FOUND"
proof -
  let ?r0 = "request\<lparr>req_origin := []\<rparr>"
  have "\<forall>x \<in> set (room_origins env (req_room_id ?r0)). \<not> proffer env ?r0 x"
    using assms by (auto simp: proffer_iff)
  then have "origins_random env w (req_room_id ?r0) (proffer env ?r0) = (None, w)"
    by (simp add: origins_random_None)
  then show ?thesis by (simp add: select_random_origin_def Let_def)
qed

lemma start_opts_frame:
  assumes "start_opts env request remote w = Some (res, request', w')"
  shows "req_attempted request' = req_attempted request"
    and "req_room_id request' = req_room_id request"
    and "req_origin request' = req_origin request"
    and "req_event_id request' = req_event_id request"
    and "req_finished request' = 0" and "req_finished request = 0"
  using assms
  by (auto simp: start_opts_def set_started_def ircd_time_def Let_def
      split: if_splits issue_outcome.splits prod.splits)

lemma select_decreases:
  assumes so: "start_opts env request remote w = Some (res, request1, w1)"
    and sel: "select_random_origin env request1 w1 = (Inr x, request2, w2)"
  shows "card (set (room_origins env (req_room_id request2)) - req_attempted request2)
           < card (set (room_origins env (req_room_id request)) - req_attempted request)"
proof -
  let ?S = "set (room_origins env (req_room_id request))"
  note f = start_opts_frame[OF so]
  note s = select_random_origin_Inr[OF sel]
  have x: "x \<in> ?S - req_attempted request" using s(1,3) f(1,2) by simp
  have "set (room_origins env (req_room_id request2)) - req_attempted request2
          = (?S - req_attempted request) - {x}"
    using s(6) f(1,2) by auto
  moreover have "card ((?S - req_attempted request) - {x}) < card (?S - req_attempted request)"
    using x by (intro card_Diff1_less) auto
  ultimately show ?thesis by simp
qed

termination start_loop
proof (relation "measure (\<lambda>(env, remote, request, w).
           card (set (room_origins env (req_room_id request)) - req_attempted request))")
  show "wf (measure (\<lambda>(env, remote, request, w).
           card (set (room_origins env (req_room_id request)) - req_attempted request)))"
    by simp
next
  fix env remote request w x2 x y b xa ya xb yb ba xc yc
  assume "start_opts env request remote w = Some x2" "(x, y) = x2" "(xa, ya) = y"
    "(xb, yb) = select_random_origin env xa ya" "xb = Inr ba" "(xc, yc) = yb"
  then have "start_opts env request remote w = Some (x, xa, ya)"
    and "select_random_origin env xa ya = (Inr ba, xc, yc)"
    by auto
  from select_decreases[OF this]
  show "((env, req_origin xc, xc, yc), env, remote, request, w)
          \<in> measure (\<lambda>(env, remote, request, w).
           card (set (room_origins env (req_room_id request)) - req_attempted request))"
    by simp
qed

lemma finish_frame:
  assumes "finish env request w = (request', w')"
  shows "req_attempted request' = req_attempted request"
    and "req_room_id request' = req_room_id request"
    and "req_event_id request' = req_event_id request"
    and "req_origin request' = req_origin request"
    and "req_started request' = req_started request"
    and "req_last request' = req_last request"
    and "req_finished request' = clock env (ticks w)"
    and "issued w' = issued w" and "ticks w' = ticks w + 1"
  using assms
  by (auto simp: finish_def ircd_time_def Let_def split: if_splits option.splits)

lemma start_catch_frame:
  assumes "start_catch env e request w = Some (b, request', w')"
  shows "req_attempted request' = req_attempted request"
    and "req_room_id request' = req_room_id request"
    and "req_event_id request' = req_event_id request"
    and "req_started request' = req_started request"
    and "req_last request' = req_last request"
    and "req_finished request' = clock env (ticks w)"
    and "issued w' = issued w" and "ticks w' = ticks w + 1" and "req_finished request = 0"
proof -
  from assms obtain r where f: "finish env (request\<lparr>req_eptr := Some e\<rparr>) w = (request', w')"
    and z: "req_finished request = 0"
    by (auto simp: start_catch_def Let_def split: if_splits prod.splits)
  from finish_frame[OF f] z
  show "req_attempted request' = req_attempted request"
    and "req_room_id request' = req_room_id request"
    and "req_event_id request' = req_event_id request"
    and "req_started request' = req_started request"
    and "req_last request' = req_last request"
    and "req_finished request' = clock env (ticks w)"
    and "issued w' = issued w" and "ticks w' = ticks w + 1" and "req_finished request = 0"
    by simp_all
qed

lemma start_opts_issued:
  assumes "start_opts env request remote w = Some (res, request', w')"
  shows "issued w' = issued w \<or>
         issued w' = issued w @ [(req_event_id request, remote, req_attempted request)]"
  using assms
  by (auto simp: start_opts_def set_started_def ircd_time_def Let_def
      split: if_splits issue_outcome.splits prod.splits)

lemma start_loop_issued:
  assumes "start_loop env remote request w = Some (b, request', w')"
    and "selected env (req_room_id request) (req_event_id request, remote, req_attempted request)"
  shows "\<exists>new. issued w' = issued w @ new \<and>
           (\<forall>entry \<in> set new. selected env (req_room_id request) entry)"
  using assms
proof (induction env remote request w arbitrary: b request' w' rule: start_loop.induct)
  case (1 env remote request w)
  note run = "1.prems"(1) and sel = "1.prems"(2)
  show ?case
  proof (cases "req_origin request = []")
    case True
    with run obtain r where "finish env request w = (request', w')"
      by (subst (asm) start_loop.simps) (auto split: if_splits prod.splits)
    from finish_frame(8)[OF this] show ?thesis by simp
  next
    case False
    from run False obtain res request1 w1 where
      so: "start_opts env request remote w = Some (res, request1, w1)"
      by (subst (asm) start_loop.simps) (auto split: option.splits)
    note fr = start_opts_frame[OF so]
    from start_opts_issued[OF so] sel
    have i1: "\<exists>new. issued w1 = issued w @ new \<and>
           (\<forall>entry \<in> set new. selected env (req_room_id request) entry)"
      by auto
    show ?thesis
    proof (cases res)
      case (Inl e)
      with run False so have "start_catch env e request1 w1 = Some (b, request', w')"
        by (subst (asm) start_loop.simps) simp
      from start_catch_frame(7)[OF this] i1 show ?thesis by simp
    next
      case (Inr ok)
      show ?thesis
      proof (cases ok)
        case True
        with run False so Inr have "w' = w1"
          by (subst (asm) start_loop.simps) simp
        with i1 show ?thesis by simp
      next
        case ok: False
        obtain sres request2 w2 where srd: "select_random_origin env request1 w1 = (sres, request2, w2)"
          by (cases "select_random_origin env request1 w1") auto
        show ?thesis
        proof (cases sres)
          case (Inl e)
          with run False so Inr ok srd have "start_catch env e request2 w2 = Some (b, request', w')"
            by (subst (asm) start_loop.simps) simp
          from start_catch_frame(7)[OF this] select_random_origin_Inl(2)[OF srd[unfolded Inl]] i1
          show ?thesis by simp
        next
          case sr: (Inr x)
          note s = select_random_origin_Inr[OF srd[unfolded sr]]
          from run False so Inr ok srd sr
          have rec: "start_loop env (req_origin request2) request2 w2 = Some (b, request', w')"
            by (subst (asm) start_loop.simps) simp
          have rid: "req_room_id request2 = req_room_id request" using s(6) fr(2) by simp
          have sel2: "selected env (req_room_id request2)
                 (req_event_id request2, req_origin request2, req_attempted request2)"
            using s fr by (simp add: selected_def)
          have okF: "ok = False" using ok by simp
          from "1.IH"[OF False so refl Inr okF refl srd[symmetric] sr refl rec sel2]
          obtain new2 where n2: "issued w' = issued w2 @ new2"
            "\<forall>entry \<in> set new2. selected env (req_room_id request2) entry" by blast
          from i1 obtain new1 where n1: "issued w1 = issued w @ new1"
            "\<forall>entry \<in> set new1. selected env (req_room_id request) entry" by blast
          have "issued w' = issued w @ (new1 @ new2)" using n1 n2 s(7) by simp
          moreover have "\<forall>entry \<in> set (new1 @ new2). selected env (req_room_id request) entry"
            using n1 n2 rid by auto
          ultimately show ?thesis by blast
        qed
      qed
    qed
  qed
qed


lemma set_started_frame:
  assumes "set_started env request w = (request', w')"
  shows "req_attempted request' = req_attempted request"
    and "req_room_id request' = req_room_id request"
    and "req_event_id request' = req_event_id request"
    and "req_origin request' = req_origin request"
    and "req_last request' = req_last request"
    and "req_finished request' = req_finished request"
    and "issued w' = issued w"
  using assms
  by (auto simp: set_started_def ircd_time_def Let_def split: if_splits prod.splits)

lemma start_issued:
  assumes run: "start env request w = Some (b, request', w')" and no: "req_origin request = []"
  shows "\<exists>new. issued w' = issued w @ new \<and>
           (\<forall>entry \<in> set new. selected env (req_room_id request) entry)"
proof -
  obtain request1 w1 where ss: "set_started env request w = (request1, w1)"
    by (cases "set_started env request w") auto
  note f1 = set_started_frame[OF ss]
  obtain sres request2 w2 where srd: "select_random_origin env request1 w1 = (sres, request2, w2)"
    by (cases "select_random_origin env request1 w1") auto
  from run have fin: "req_finished request = 0"
    by (auto simp: start_def split: if_splits)
  show ?thesis
  proof (cases sres)
    case (Inl e)
    with run fin ss srd no f1(4) have "start_catch env e request2 w2 = Some (b, request', w')"
      by (simp add: start_def)
    from start_catch_frame(7)[OF this] select_random_origin_Inl(2)[OF srd[unfolded Inl]] f1(7)
    show ?thesis by simp
  next
    case (Inr x)
    note s = select_random_origin_Inr[OF srd[unfolded Inr]]
    from run fin ss srd no f1(4) Inr
    have rec: "start_loop env (req_origin request2) request2 w2 = Some (b, request', w')"
      by (simp add: start_def)
    have rid: "req_room_id request2 = req_room_id request" using s(6) f1(2) by simp
    have "selected env (req_room_id request2)
            (req_event_id request2, req_origin request2, req_attempted request2)"
      using s f1 by (simp add: selected_def)
    from start_loop_issued[OF rec this] s(7) f1(7) rid show ?thesis by simp
  qed
qed

text \<open>
  Claim C2. An origin that \<open>select_random_origin\<close> returns is an origin of the room, is
  not the local server, was not in \<open>request.attempted\<close> and has no latched error; it is
  then \<open>request.origin\<close> and a member of \<open>request.attempted\<close>, and the selection
  itself issues no request. The only exception thrown is \<open>M_NOT_FOUND\<close>, and it is
  thrown whenever no origin of the room satisfies the three predicates. Every request
  that \<open>start(request)\<close> issues for a request without origin goes to such an origin,
  which is already in \<open>request.attempted\<close> when the request is issued.
\<close>

theorem select_random_origin_spec:
  "(\<forall>x request' w'. select_random_origin env request w = (Inr x, request', w') \<longrightarrow>
      x \<in> set (room_origins env (req_room_id request)) \<and>
      \<not> my_host env x \<and> x \<notin> req_attempted request \<and> errmsg env x = [] \<and>
      req_origin request' = x \<and> req_attempted request' = insert x (req_attempted request) \<and>
      issued w' = issued w) \<and>
   (\<forall>e request' w'. select_random_origin env request w = (Inl e, request', w') \<longrightarrow>
      e = M_NOT_FOUND) \<and>
   ((\<forall>x \<in> set (room_origins env (req_room_id request)).
        my_host env x \<or> x \<in> req_attempted request \<or> errmsg env x \<noteq> []) \<longrightarrow>
      fst (select_random_origin env request w) = Inl M_NOT_FOUND) \<and>
   (\<forall>b request' w'. req_origin request = [] \<and> start env request w = Some (b, request', w') \<longrightarrow>
      (\<exists>new. issued w' = issued w @ new \<and>
         (\<forall>(eid, remote, att) \<in> set new.
            remote \<in> att \<and> remote \<in> set (room_origins env (req_room_id request)) \<and>
            \<not> my_host env remote \<and> errmsg env remote = [])))"
proof -
  have 1: "\<forall>x request' w'. select_random_origin env request w = (Inr x, request', w') \<longrightarrow>
      x \<in> set (room_origins env (req_room_id request)) \<and>
      \<not> my_host env x \<and> x \<notin> req_attempted request \<and> errmsg env x = [] \<and>
      req_origin request' = x \<and> req_attempted request' = insert x (req_attempted request) \<and>
      issued w' = issued w"
  proof (intro allI impI)
    fix x request' w'
    assume a: "select_random_origin env request w = (Inr x, request', w')"
    from select_random_origin_Inr[OF a]
    show "x \<in> set (room_origins env (req_room_id request)) \<and>
      \<not> my_host env x \<and> x \<notin> req_attempted request \<and> errmsg env x = [] \<and>
      req_origin request' = x \<and> req_attempted request' = insert x (req_attempted request) \<and>
      issued w' = issued w" by simp
  qed
  have 2: "\<forall>e request' w'. select_random_origin env request w = (Inl e, request', w') \<longrightarrow>
      e = M_NOT_FOUND"
    using select_random_origin_Inl(1) by blast
  have 3: "(\<forall>x \<in> set (room_origins env (req_room_id request)).
        my_host env x \<or> x \<in> req_attempted request \<or> errmsg env x \<noteq> []) \<longrightarrow>
      fst (select_random_origin env request w) = Inl M_NOT_FOUND"
    using select_random_origin_none by blast
  have 4: "\<forall>b request' w'. req_origin request = [] \<and> start env request w = Some (b, request', w') \<longrightarrow>
      (\<exists>new. issued w' = issued w @ new \<and>
         (\<forall>(eid, remote, att) \<in> set new.
            remote \<in> att \<and> remote \<in> set (room_origins env (req_room_id request)) \<and>
            \<not> my_host env remote \<and> errmsg env remote = []))"
  proof (intro allI impI)
    fix b request' w'
    assume a: "req_origin request = [] \<and> start env request w = Some (b, request', w')"
    from start_issued[of env request w b request' w'] a
    obtain new where "issued w' = issued w @ new"
      "\<forall>entry \<in> set new. selected env (req_room_id request) entry" by blast
    then show "\<exists>new. issued w' = issued w @ new \<and>
         (\<forall>(eid, remote, att) \<in> set new.
            remote \<in> att \<and> remote \<in> set (room_origins env (req_room_id request)) \<and>
            \<not> my_host env remote \<and> errmsg env remote = [])"
      by (auto simp: selected_def)
  qed
  from 1 2 3 4 show ?thesis by blast
qed

theorem select_random_origin_spec_witness:
  "select_random_origin example_env (new_request ''!r'' ''$X'' 8192) world0 =
     (Inr ''s2.org'',
      (new_request ''!r'' ''$X'' 8192)\<lparr>req_origin := ''s2.org'', req_attempted := {''s2.org''}\<rparr>,
      world0\<lparr>draws := 1\<rparr>) \<and>
   ''s2.org'' \<in> set (room_origins example_env ''!r'') \<and>
   \<not> my_host example_env ''s2.org'' \<and> errmsg example_env ''s2.org'' = [] \<and>
   fst (select_random_origin example_env
          ((new_request ''!r'' ''$X'' 8192)\<lparr>req_attempted := {''s1.org'', ''s2.org''}\<rparr>) world0)
     = Inl M_NOT_FOUND \<and>
   start example_env (new_request ''!r'' ''$X'' 8192) world0 =
     Some (True,
       \<lparr>req_room_id = ''!r'', req_event_id = ''$X'', req_bufsz = 8192, req_origin = ''s1.org'',
          req_attempted = {''s1.org'', ''s2.org''}, req_started = 100, req_last = 102,
          req_finished = 0, req_promise = invalid, req_eptr = None\<rparr>,
       \<lparr>ticks = 3, draws = 2, issued = [(''$X'', ''s1.org'', {''s1.org'', ''s2.org''})]\<rparr>)"
proof -
  have a: "select_random_origin example_env (new_request ''!r'' ''$X'' 8192) world0 =
     (Inr ''s2.org'',
      (new_request ''!r'' ''$X'' 8192)\<lparr>req_origin := ''s2.org'', req_attempted := {''s2.org''}\<rparr>,
      world0\<lparr>draws := 1\<rparr>)"
    by (simp add: select_random_origin_def origins_random_def proffer_def select_origin_def
      example_env_def new_request_def world0_def Let_def)
  have rid: "req_room_id (new_request ''!r'' ''$X'' 8192) = ''!r''"
    by (simp add: new_request_def)
  have b: "\<forall>x \<in> set (room_origins example_env (req_room_id
              ((new_request ''!r'' ''$X'' 8192)\<lparr>req_attempted := {''s1.org'', ''s2.org''}\<rparr>))).
        my_host example_env x \<or>
        x \<in> req_attempted ((new_request ''!r'' ''$X'' 8192)\<lparr>req_attempted := {''s1.org'', ''s2.org''}\<rparr>) \<or>
        errmsg example_env x \<noteq> []"
    by (simp add: example_env_def)
  have c: "start example_env (new_request ''!r'' ''$X'' 8192) world0 =
     Some (True,
       \<lparr>req_room_id = ''!r'', req_event_id = ''$X'', req_bufsz = 8192, req_origin = ''s1.org'',
          req_attempted = {''s1.org'', ''s2.org''}, req_started = 100, req_last = 102,
          req_finished = 0, req_promise = invalid, req_eptr = None\<rparr>,
       \<lparr>ticks = 3, draws = 2, issued = [(''$X'', ''s1.org'', {''s1.org'', ''s2.org''})]\<rparr>)"
    by (simp add: start_def set_started_def ircd_time_def start_opts_def start_catch_def finish_def
      select_random_origin_def origins_random_def proffer_def select_origin_def
      example_env_def new_request_def world0_def Let_def)
  note t1 = select_random_origin_spec[THEN conjunct1, rule_format, OF a, unfolded rid]
  note t3 = select_random_origin_spec[THEN conjunct2, THEN conjunct2, THEN conjunct1, THEN mp, OF b]
  from t1 t3 a c show ?thesis by simp
qed

section \<open>Timestamps of a request\<close>

lemma select_random_origin_ts:
  assumes "select_random_origin env request w = (res, request', w')"
  shows "req_started request' = req_started request"
    and "req_last request' = req_last request"
    and "req_finished request' = req_finished request"
    and "ticks w' = ticks w"
  using assms
  by (auto simp: select_random_origin_def origins_random_def select_origin_def Let_def
      split: prod.splits option.splits if_splits)

lemma ts_inv_select:
  "select_random_origin env request w = (res, request', w') \<Longrightarrow>
     ts_inv env request' w' = ts_inv env request w"
  using select_random_origin_ts[of env request w res request' w']
  by (simp add: ts_inv_def)

lemma ts_inv_fields:
  "req_started r' = req_started r \<Longrightarrow> req_last r' = req_last r \<Longrightarrow>
   req_finished r' = req_finished r \<Longrightarrow> ts_inv env r' w = ts_inv env r w"
  by (simp add: ts_inv_def)

lemma clock_step: "mono (clock env) \<Longrightarrow> clock env n \<le> clock env (Suc n)"
  by (simp add: monoD)

lemma ts_inv_set_started:
  assumes m: "mono (clock env)" and p: "\<forall>n. 0 < clock env n"
    and i: "ts_inv env request w" and fin: "req_finished request = 0"
    and s: "set_started env request w = (request', w')"
  shows "ts_inv env request' w' \<and> req_started request' \<noteq> 0 \<and>
         req_finished request' = req_finished request"
proof (cases "req_started request = 0")
  case True
  with s have r: "request' = request\<lparr>req_started := clock env (ticks w)\<rparr>"
    "w' = w\<lparr>ticks := ticks w + 1\<rparr>"
    by (auto simp: set_started_def ircd_time_def)
  from True i have l0: "req_last request = 0" by (auto simp: ts_inv_def)
  from p have pos: "clock env (ticks w) \<noteq> 0" by (metis less_irrefl)
  from i l0 fin clock_step[OF m, of "ticks w"] show ?thesis
    unfolding r ts_inv_def using pos by auto
next
  case False
  with s have "request' = request" "w' = w" by (auto simp: set_started_def)
  with i False show ?thesis by simp
qed

lemma ts_inv_finish:
  assumes m: "mono (clock env)"
    and i: "ts_inv env request w" and f: "finish env request w = (request', w')"
  shows "ts_inv env request' w'"
proof -
  note fr = finish_frame[OF f]
  from i clock_step[OF m, of "ticks w"] show ?thesis
    unfolding ts_inv_def fr by auto
qed

lemma ts_inv_start_catch:
  assumes m: "mono (clock env)"
    and i: "ts_inv env request w" and f: "start_catch env e request w = Some (b, request', w')"
  shows "ts_inv env request' w'"
proof -
  from f have ff: "finish env (request\<lparr>req_eptr := Some e\<rparr>) w = (request', w')"
    by (auto simp: start_catch_def Let_def split: if_splits prod.splits)
  have "ts_inv env (request\<lparr>req_eptr := Some e\<rparr>) w" using i by (simp add: ts_inv_def)
  from ts_inv_finish[OF m this ff] show ?thesis .
qed

lemma ts_inv_start_opts:
  assumes m: "mono (clock env)" and p: "\<forall>n. 0 < clock env n"
    and i: "ts_inv env request w"
    and s: "start_opts env request remote w = Some (res, request', w')"
  shows "ts_inv env request' w'"
proof -
  obtain r1 w1 where ss: "set_started env request w = (r1, w1)"
    by (cases "set_started env request w") auto
  from s have fin: "req_finished request = 0" by (auto simp: start_opts_def split: if_splits)
  from ts_inv_set_started[OF m p i fin ss] fin
  have i1: "ts_inv env r1 w1" and s1: "req_started r1 \<noteq> 0" and f1: "req_finished r1 = 0" by auto
  from s fin ss f1 have r': "req_started request' = req_started r1"
    "req_last request' = clock env (ticks w1)" "req_finished request' = 0"
    "ticks w' = ticks w1 + 1"
    by (auto simp: start_opts_def ircd_time_def Let_def split: issue_outcome.splits)
  from i1 s1 f1 clock_step[OF m, of "ticks w1"] p[rule_format, of "Suc (ticks w1)"]
  show ?thesis
    unfolding ts_inv_def r' by auto
qed

lemma ts_inv_start_loop:
  assumes "mono (clock env)" and "\<forall>n. 0 < clock env n"
    and "ts_inv env request w"
    and "start_loop env remote request w = Some (b, request', w')"
  shows "ts_inv env request' w'"
  using assms
proof (induction env remote request w arbitrary: b request' w' rule: start_loop.induct)
  case (1 env remote request w)
  note m = "1.prems"(1) and p = "1.prems"(2) and i = "1.prems"(3) and run = "1.prems"(4)
  show ?case
  proof (cases "req_origin request = []")
    case True
    with run obtain r where "finish env request w = (request', w')"
      by (subst (asm) start_loop.simps) (auto split: if_splits prod.splits)
    from ts_inv_finish[OF m i this] show ?thesis .
  next
    case False
    from run False obtain res request1 w1 where
      so: "start_opts env request remote w = Some (res, request1, w1)"
      by (subst (asm) start_loop.simps) (auto split: option.splits)
    note i1 = ts_inv_start_opts[OF m p i so]
    show ?thesis
    proof (cases res)
      case (Inl e)
      with run False so have "start_catch env e request1 w1 = Some (b, request', w')"
        by (subst (asm) start_loop.simps) simp
      from ts_inv_start_catch[OF m i1 this] show ?thesis .
    next
      case (Inr ok)
      show ?thesis
      proof (cases ok)
        case True
        with run False so Inr have "request' = request1" "w' = w1"
          by (subst (asm) start_loop.simps, simp)+
        with i1 show ?thesis by simp
      next
        case ok: False
        obtain sres request2 w2 where srd: "select_random_origin env request1 w1 = (sres, request2, w2)"
          by (cases "select_random_origin env request1 w1") auto
        have i2: "ts_inv env request2 w2" using ts_inv_select[OF srd] i1 by simp
        show ?thesis
        proof (cases sres)
          case (Inl e)
          with run False so Inr ok srd have "start_catch env e request2 w2 = Some (b, request', w')"
            by (subst (asm) start_loop.simps) simp
          from ts_inv_start_catch[OF m i2 this] show ?thesis .
        next
          case sr: (Inr x)
          from run False so Inr ok srd sr
          have rec: "start_loop env (req_origin request2) request2 w2 = Some (b, request', w')"
            by (subst (asm) start_loop.simps) simp
          have okF: "ok = False" using ok by simp
          from "1.IH"[OF False so refl Inr okF refl srd[symmetric] sr refl m p i2 rec]
          show ?thesis .
        qed
      qed
    qed
  qed
qed

lemma ts_inv_start:
  assumes m: "mono (clock env)" and p: "\<forall>n. 0 < clock env n"
    and i: "ts_inv env request w"
    and run: "start env request w = Some (b, request', w')"
  shows "ts_inv env request' w'"
proof -
  obtain request1 w1 where ss: "set_started env request w = (request1, w1)"
    by (cases "set_started env request w") auto
  from run have fin: "req_finished request = 0"
    by (auto simp: start_def split: if_splits)
  from ts_inv_set_started[OF m p i fin ss] have i1: "ts_inv env request1 w1" by simp
  show ?thesis
  proof (cases "req_origin request1 = []")
    case True
    obtain sres request2 w2 where srd: "select_random_origin env request1 w1 = (sres, request2, w2)"
      by (cases "select_random_origin env request1 w1") auto
    have i2: "ts_inv env request2 w2" using ts_inv_select[OF srd] i1 by simp
    show ?thesis
    proof (cases sres)
      case (Inl e)
      with run fin ss srd True have "start_catch env e request2 w2 = Some (b, request', w')"
        by (simp add: start_def)
      from ts_inv_start_catch[OF m i2 this] show ?thesis .
    next
      case (Inr x)
      with run fin ss srd True
      have "start_loop env (req_origin request2) request2 w2 = Some (b, request', w')"
        by (simp add: start_def)
      from ts_inv_start_loop[OF m p i2 this] show ?thesis .
    qed
  next
    case False
    with run fin ss have "start_loop env [] request1 w1 = Some (b, request', w')"
      by (simp add: start_def)
    from ts_inv_start_loop[OF m p i1 this] show ?thesis .
  qed
qed

lemma ts_inv_retry:
  assumes m: "mono (clock env)" and p: "\<forall>n. 0 < clock env n"
    and i: "ts_inv env request w"
    and run: "retry env request w = Some (request', w')"
  shows "ts_inv env request' w'"
proof -
  from run obtain b where s: "start env (request\<lparr>req_eptr := None, req_origin := []\<rparr>) w
      = Some (b, request', w')"
    by (auto simp: retry_def split: if_splits option.splits)
  have "ts_inv env (request\<lparr>req_eptr := None, req_origin := []\<rparr>) w"
    using i by (simp add: ts_inv_def)
  from ts_inv_start[OF m p this s] show ?thesis .
qed

lemma ts_inv_handle:
  assumes m: "mono (clock env)" and p: "\<forall>n. 0 < clock env n"
    and i: "ts_inv env request w"
    and run: "handle env thrown request w = Some (b, request', w')"
  shows "ts_inv env request' w'"
proof -
  define request1 where
    "request1 = (case thrown of Some e \<Rightarrow> request\<lparr>req_eptr := Some e\<rparr> | None \<Rightarrow> request)"
  have i1: "ts_inv env request1 w"
    using i by (auto simp: request1_def ts_inv_def split: option.splits)
  show ?thesis
  proof (cases "req_eptr request1 = None")
    case True
    with run have "finish env request1 w = (request', w')"
      by (auto simp: handle_def Let_def request1_def[symmetric] split: prod.splits)
    from ts_inv_finish[OF m i1 this] show ?thesis .
  next
    case False
    with run have "retry env request1 w = Some (request', w')"
      by (auto simp: handle_def Let_def request1_def[symmetric] split: option.splits)
    from ts_inv_retry[OF m p i1 this] show ?thesis .
  qed
qed

lemma ts_inv_apply:
  assumes m: "mono (clock env)" and p: "\<forall>n. 0 < clock env n"
    and i: "ts_inv env request w"
    and run: "apply_fetch_op env x request w = Some (request', w')"
  shows "ts_inv env request' w'"
proof (cases x)
  case Start
  with run obtain b where "start env request w = Some (b, request', w')"
    by (auto split: option.splits)
  from ts_inv_start[OF m p i this] show ?thesis .
next
  case Retry
  with run ts_inv_retry[OF m p i] show ?thesis by simp
next
  case Finish
  with run have "finish env request w = (request', w')" by simp
  from ts_inv_finish[OF m i this] show ?thesis .
next
  case (Handle thrown)
  with run obtain b where "handle env thrown request w = Some (b, request', w')"
    by (auto split: option.splits)
  from ts_inv_handle[OF m p i this] show ?thesis .
qed

lemma ts_inv_run:
  assumes m: "mono (clock env)" and p: "\<forall>n. 0 < clock env n"
  shows "ts_inv env request w \<Longrightarrow> run_fetch_ops env ops request w = Some (request', w') \<Longrightarrow>
           ts_inv env request' w'"
proof (induction ops arbitrary: request w)
  case Nil then show ?case by simp
next
  case (Cons x xs)
  from Cons.prems(2) obtain r1 w1 where a: "apply_fetch_op env x request w = Some (r1, w1)"
    and b: "run_fetch_ops env xs r1 w1 = Some (request', w')"
    by (auto split: option.splits)
  from Cons.IH[OF ts_inv_apply[OF m p Cons.prems(1) a] b] show ?case .
qed

lemma ts_inv_fresh:
  "\<forall>n. 0 < clock env n \<Longrightarrow> req_started r = 0 \<Longrightarrow> req_last r = 0 \<Longrightarrow> req_finished r = 0 \<Longrightarrow>
     ts_inv env r w"
  by (auto simp: ts_inv_def intro: less_imp_le)

text \<open>
  Claim C9, as stated, fails: a request started in a room without a viable origin is
  finished with \<open>started\<close> set and \<open>last\<close> still zero, since \<open>last\<close> is written
  only by \<open>start(request, opts)\<close>, which runs once an origin has been selected.
\<close>

theorem finished_without_issue_counterexample:
  "run_fetch_ops example_env_local [Start]
     ((new_request ''!r'' ''$X'' 8192)\<lparr>req_promise := pending\<rparr>) world0 =
     Some (\<lparr>req_room_id = ''!r'', req_event_id = ''$X'', req_bufsz = 8192,
             req_origin = [], req_attempted = {}, req_started = 100, req_last = 0,
             req_finished = 101, req_promise = has_exception M_NOT_FOUND, req_eptr = None\<rparr>,
           \<lparr>ticks = 2, draws = 0, issued = []\<rparr>) \<and>
   (case run_fetch_ops example_env_local [Start]
           ((new_request ''!r'' ''$X'' 8192)\<lparr>req_promise := pending\<rparr>) world0 of
      Some (r, w) \<Rightarrow>
        0 < req_finished r \<and> \<not> (req_started r \<le> req_last r \<and> req_last r \<le> req_finished r)
    | None \<Rightarrow> False)"
  by (simp add: start_def set_started_def ircd_time_def start_catch_def finish_def
      select_random_origin_def origins_random_def proffer_def
      example_env_local_def example_env_def new_request_def world0_def Let_def)

text \<open>
  Claim C9, amended. With a clock that is positive and never goes back, every request
  that reaches \<open>finished > 0\<close> from a state with the three timestamps zero, as its
  constructor leaves them, through \<open>start\<close>, \<open>retry\<close>, \<open>handle\<close> and \<open>finish\<close>
  has \<open>last \<le> finished\<close> and \<open>started \<le> finished\<close>, and has
  \<open>started \<le> last\<close> provided \<open>last\<close> is not zero, that is provided
  \<open>start(request, opts)\<close> has run for it at least once.
\<close>

theorem fetch_timestamps_ordered:
  assumes "mono (clock env)" and "\<forall>n. 0 < clock env n"
    and "req_started r0 = 0" and "req_last r0 = 0" and "req_finished r0 = 0"
    and "run_fetch_ops env ops r0 w0 = Some (r, w)"
    and "0 < req_finished r"
  shows "req_last r \<le> req_finished r \<and> req_started r \<le> req_finished r \<and>
         (req_last r \<noteq> 0 \<longrightarrow> req_started r \<le> req_last r)"
proof -
  have "ts_inv env r w"
    using ts_inv_run[OF assms(1,2) ts_inv_fresh[OF assms(2,3,4,5)] assms(6)] .
  with assms(7) show ?thesis by (auto simp: ts_inv_def)
qed

theorem fetch_timestamps_ordered_witness:
  "run_fetch_ops example_env [Start, Handle (Some http_error)]
     (new_request ''!r'' ''$X'' 8192) world0 =
     Some (\<lparr>req_room_id = ''!r'', req_event_id = ''$X'', req_bufsz = 8192,
             req_origin = [], req_attempted = {''s1.org'', ''s2.org''},
             req_started = 100, req_last = 102, req_finished = 103,
             req_promise = invalid, req_eptr = Some M_NOT_FOUND\<rparr>,
           \<lparr>ticks = 4, draws = 2, issued = [(''$X'', ''s1.org'', {''s1.org'', ''s2.org''})]\<rparr>) \<and>
   (case run_fetch_ops example_env [Start, Handle (Some http_error)]
           (new_request ''!r'' ''$X'' 8192) world0 of
      Some (r, w) \<Rightarrow>
        0 < req_finished r \<and> req_last r \<le> req_finished r \<and>
        req_started r \<le> req_finished r \<and> req_started r \<le> req_last r
    | None \<Rightarrow> False)"
proof -
  have run: "run_fetch_ops example_env [Start, Handle (Some http_error)]
     (new_request ''!r'' ''$X'' 8192) world0 =
     Some (\<lparr>req_room_id = ''!r'', req_event_id = ''$X'', req_bufsz = 8192,
             req_origin = [], req_attempted = {''s1.org'', ''s2.org''},
             req_started = 100, req_last = 102, req_finished = 103,
             req_promise = invalid, req_eptr = Some M_NOT_FOUND\<rparr>,
           \<lparr>ticks = 4, draws = 2, issued = [(''$X'', ''s1.org'', {''s1.org'', ''s2.org''})]\<rparr>)"
    by (simp add: start_def retry_def handle_def set_started_def ircd_time_def start_opts_def
        start_catch_def finish_def select_random_origin_def origins_random_def proffer_def
        select_origin_def example_env_def new_request_def world0_def Let_def)
  have m: "mono (clock example_env)" by (simp add: example_env_def mono_def)
  have p: "\<forall>n. 0 < clock example_env n" by (simp add: example_env_def)
  have z: "req_started (new_request ''!r'' ''$X'' 8192) = 0"
    "req_last (new_request ''!r'' ''$X'' 8192) = 0"
    "req_finished (new_request ''!r'' ''$X'' 8192) = 0"
    by (simp_all add: new_request_def)
  from fetch_timestamps_ordered[OF m p z run] run show ?thesis by simp
qed

section \<open>Submission\<close>

lemma lower_bound_Nil: "lower_bound [] k = 0"
  by (simp add: lower_bound_def)

lemma lower_bound_Cons:
  "lower_bound (r # rs) k = (if req_event_id r < k then Suc (lower_bound rs k) else 0)"
  by (simp add: lower_bound_def)

lemma lower_bound_le: "lower_bound rs k \<le> length rs"
  by (simp add: lower_bound_def length_takeWhile_le)

lemma lower_bound_not_less:
  "lower_bound rs k < length rs \<Longrightarrow> \<not> req_event_id (rs ! lower_bound rs k) < k"
  unfolding lower_bound_def by (rule nth_length_takeWhile)

lemma lower_bound_found:
  "sorted_wrt (<) (map req_event_id rs) \<Longrightarrow>
     (lower_bound rs k < length rs \<and> req_event_id (rs ! lower_bound rs k) = k)
       \<longleftrightarrow> k \<in> req_event_id ` set rs"
proof (induction rs)
  case Nil then show ?case by (simp add: lower_bound_Nil)
next
  case (Cons r rs)
  then have IH: "(lower_bound rs k < length rs \<and> req_event_id (rs ! lower_bound rs k) = k)
       \<longleftrightarrow> k \<in> req_event_id ` set rs"
    and lt: "\<forall>x \<in> set rs. req_event_id r < req_event_id x" by auto
  show ?case
  proof (cases "req_event_id r < k")
    case True
    then show ?thesis using IH by (auto simp: lower_bound_Cons)
  next
    case False
    then have "k \<notin> req_event_id ` set rs" using lt by fastforce
    with False show ?thesis by (auto simp: lower_bound_Cons)
  qed
qed

lemma insert_at_lower_bound_sorted:
  "sorted_wrt (<) (map req_event_id rs) \<Longrightarrow> req_event_id new \<notin> req_event_id ` set rs \<Longrightarrow>
     sorted_wrt (<) (map req_event_id
        (take (lower_bound rs (req_event_id new)) rs @ new # drop (lower_bound rs (req_event_id new)) rs))"
proof (induction rs)
  case Nil then show ?case by (simp add: lower_bound_Nil)
next
  case (Cons r rs)
  let ?k = "req_event_id new"
  let ?p = "lower_bound rs ?k"
  from Cons.prems have srt: "sorted_wrt (<) (map req_event_id rs)"
    and lt: "\<forall>x \<in> set rs. req_event_id r < req_event_id x"
    and ne: "?k \<noteq> req_event_id r" and nin: "?k \<notin> req_event_id ` set rs" by auto
  show ?case
  proof (cases "req_event_id r < ?k")
    case True
    have "set (take ?p rs @ new # drop ?p rs) = insert new (set rs)"
      by (metis append_take_drop_id list.simps(15) set_append Un_insert_right)
    with True lt have "\<forall>x \<in> set (take ?p rs @ new # drop ?p rs). req_event_id r < req_event_id x"
      by auto
    with Cons.IH[OF srt nin] True show ?thesis by (auto simp: lower_bound_Cons)
  next
    case False
    with ne have "?k < req_event_id r" by simp
    with lt have "\<forall>x \<in> set rs. ?k < req_event_id x" by fastforce
    with False \<open>?k < req_event_id r\<close> Cons.prems(1) show ?thesis
      by (simp add: lower_bound_Cons)
  qed
qed

lemma emplace_hint_new:
  assumes "sorted_wrt (<) (map req_event_id rs)" and "req_event_id new \<notin> req_event_id ` set rs"
  shows "emplace_hint rs hint new =
           (take (lower_bound rs (req_event_id new)) rs @ new #
              drop (lower_bound rs (req_event_id new)) rs,
            lower_bound rs (req_event_id new))"
proof -
  let ?k = "req_event_id new" let ?p = "lower_bound rs ?k"
  have "\<not> (?p < length rs \<and> \<not> ?k < req_event_id (rs ! ?p))"
  proof
    assume a: "?p < length rs \<and> \<not> ?k < req_event_id (rs ! ?p)"
    with lower_bound_not_less[of rs ?k] have "req_event_id (rs ! ?p) = ?k" by auto
    with a assms(2) show False by (metis imageI nth_mem)
  qed
  then show ?thesis by (auto simp: emplace_hint_def Let_def)
qed

lemma start_loop_frame:
  assumes "start_loop env remote request w = Some (b, request', w')"
  shows "req_event_id request' = req_event_id request \<and>
         req_room_id request' = req_room_id request \<and>
         (req_promise request \<noteq> invalid \<longrightarrow> req_promise request' \<noteq> invalid)"
  using assms
proof (induction env remote request w arbitrary: b request' w' rule: start_loop.induct)
  case (1 env remote request w)
  note run = "1.prems"(1)
  have fin: "\<And>r v r' v'. finish env r v = (r', v') \<Longrightarrow>
     req_event_id r' = req_event_id r \<and> req_room_id r' = req_room_id r \<and>
         (req_promise r \<noteq> invalid \<longrightarrow> req_promise r' \<noteq> invalid)"
    by (auto simp: finish_def ircd_time_def Let_def split: if_splits option.splits)
  have cat: "\<And>e r v bb r' v'. start_catch env e r v = Some (bb, r', v') \<Longrightarrow>
     req_event_id r' = req_event_id r \<and> req_room_id r' = req_room_id r \<and>
         (req_promise r \<noteq> invalid \<longrightarrow> req_promise r' \<noteq> invalid)"
    by (auto simp: start_catch_def Let_def split: if_splits prod.splits dest!: fin)
  have sop: "\<And>r rem v res r' v'. start_opts env r rem v = Some (res, r', v') \<Longrightarrow>
     req_event_id r' = req_event_id r \<and> req_room_id r' = req_room_id r \<and>
         req_promise r' = req_promise r"
    by (auto simp: start_opts_def set_started_def ircd_time_def Let_def
      split: if_splits issue_outcome.splits prod.splits)
  have sel: "\<And>r v res r' v'. select_random_origin env r v = (res, r', v') \<Longrightarrow>
     req_event_id r' = req_event_id r \<and> req_room_id r' = req_room_id r \<and>
         req_promise r' = req_promise r"
    by (auto simp: select_random_origin_def origins_random_def select_origin_def Let_def
      split: prod.splits option.splits if_splits)
  show ?case
  proof (cases "req_origin request = []")
    case True
    with run obtain r where "finish env request w = (request', w')"
      by (subst (asm) start_loop.simps) (auto split: if_splits prod.splits)
    from fin[OF this] show ?thesis .
  next
    case False
    from run False obtain res request1 w1 where
      so: "start_opts env request remote w = Some (res, request1, w1)"
      by (subst (asm) start_loop.simps) (auto split: option.splits)
    note f1 = sop[OF so]
    show ?thesis
    proof (cases res)
      case (Inl e)
      with run False so have "start_catch env e request1 w1 = Some (b, request', w')"
        by (subst (asm) start_loop.simps) simp
      from cat[OF this] f1 show ?thesis by simp
    next
      case (Inr ok)
      show ?thesis
      proof (cases ok)
        case True
        with run False so Inr have "request' = request1"
          by (subst (asm) start_loop.simps) simp
        with f1 show ?thesis by simp
      next
        case ok: False
        obtain sres request2 w2 where srd: "select_random_origin env request1 w1 = (sres, request2, w2)"
          by (cases "select_random_origin env request1 w1") auto
        note f2 = sel[OF srd]
        show ?thesis
        proof (cases sres)
          case (Inl e)
          with run False so Inr ok srd have "start_catch env e request2 w2 = Some (b, request', w')"
            by (subst (asm) start_loop.simps) simp
          from cat[OF this] f1 f2 show ?thesis by simp
        next
          case sr: (Inr x)
          from run False so Inr ok srd sr
          have rec: "start_loop env (req_origin request2) request2 w2 = Some (b, request', w')"
            by (subst (asm) start_loop.simps) simp
          have okF: "ok = False" using ok by simp
          from "1.IH"[OF False so refl Inr okF refl srd[symmetric] sr refl rec] f1 f2
          show ?thesis by simp
        qed
      qed
    qed
  qed
qed

lemma start_frame:
  assumes run: "start env request w = Some (b, request', w')"
  shows "req_event_id request' = req_event_id request \<and>
         req_room_id request' = req_room_id request \<and>
         (req_promise request \<noteq> invalid \<longrightarrow> req_promise request' \<noteq> invalid)"
proof -
  obtain request1 w1 where ss: "set_started env request w = (request1, w1)"
    by (cases "set_started env request w") auto
  then have f1: "req_event_id request1 = req_event_id request"
    "req_room_id request1 = req_room_id request" "req_promise request1 = req_promise request"
    by (auto simp: set_started_def ircd_time_def split: if_splits prod.splits)
  from run have fin: "req_finished request = 0"
    by (auto simp: start_def split: if_splits)
  show ?thesis
  proof (cases "req_origin request1 = []")
    case True
    obtain sres request2 w2 where srd: "select_random_origin env request1 w1 = (sres, request2, w2)"
      by (cases "select_random_origin env request1 w1") auto
    then have f2: "req_event_id request2 = req_event_id request1"
      "req_room_id request2 = req_room_id request1" "req_promise request2 = req_promise request1"
      by (auto simp: select_random_origin_def origins_random_def select_origin_def Let_def
          split: prod.splits option.splits if_splits)
    show ?thesis
    proof (cases sres)
      case (Inl e)
      with run fin ss srd True have "start_catch env e request2 w2 = Some (b, request', w')"
        by (simp add: start_def)
      then have "req_event_id request' = req_event_id request2 \<and>
         req_room_id request' = req_room_id request2 \<and>
         (req_promise request2 \<noteq> invalid \<longrightarrow> req_promise request' \<noteq> invalid)"
        by (auto simp: start_catch_def finish_def ircd_time_def Let_def
            split: if_splits prod.splits option.splits)
      with f1 f2 show ?thesis by simp
    next
      case (Inr x)
      with run fin ss srd True
      have "start_loop env (req_origin request2) request2 w2 = Some (b, request', w')"
        by (simp add: start_def)
      from start_loop_frame[OF this] f1 f2 show ?thesis by simp
    qed
  next
    case False
    with run fin ss have "start_loop env [] request1 w1 = Some (b, request', w')"
      by (simp add: start_def)
    from start_loop_frame[OF this] f1 show ?thesis by simp
  qed
qed


lemma start_catch_total:
  "req_finished request = 0 \<Longrightarrow> start_catch env e request w \<noteq> None"
  by (simp add: start_catch_def Let_def split: prod.splits)

lemma start_opts_total:
  "req_finished request = 0 \<Longrightarrow> \<exists>res request' w'.
     start_opts env request remote w = Some (res, request', w') \<and> req_finished request' = 0"
  by (auto simp: start_opts_def set_started_def ircd_time_def Let_def
      split: issue_outcome.splits prod.splits)

lemma start_loop_total:
  "req_finished request = 0 \<Longrightarrow> start_loop env remote request w \<noteq> None"
proof (induction env remote request w rule: start_loop.induct)
  case (1 env remote request w)
  note fin = "1.prems"
  show ?case
  proof (cases "req_origin request = []")
    case True
    with fin show ?thesis
      by (subst start_loop.simps) (simp add: Let_def split: prod.splits)
  next
    case False
    from start_opts_total[OF fin, of env remote w] obtain res request1 w1 where
      so: "start_opts env request remote w = Some (res, request1, w1)"
      and f1: "req_finished request1 = 0" by blast
    show ?thesis
    proof (cases res)
      case (Inl e)
      with False so start_catch_total[OF f1, of env e w1] show ?thesis
        by (subst start_loop.simps) simp
    next
      case (Inr ok)
      show ?thesis
      proof (cases ok)
        case True
        with False so Inr show ?thesis by (subst start_loop.simps) simp
      next
        case ok: False
        obtain sres request2 w2 where srd: "select_random_origin env request1 w1 = (sres, request2, w2)"
          by (cases "select_random_origin env request1 w1") auto
        have f2: "req_finished request2 = 0" using select_random_origin_ts(3)[OF srd] f1 by simp
        show ?thesis
        proof (cases sres)
          case (Inl e)
          with False so Inr ok srd start_catch_total[OF f2, of env e w2] show ?thesis
            by (subst start_loop.simps) simp
        next
          case sr: (Inr x)
          have okF: "ok = False" using ok by simp
          from "1.IH"[OF False so refl Inr okF refl srd[symmetric] sr refl f2]
            False so Inr ok srd sr show ?thesis by (subst start_loop.simps) simp
        qed
      qed
    qed
  qed
qed

lemma start_total:
  assumes fin: "req_finished request = 0"
  shows "start env request w \<noteq> None"
proof -
  obtain request1 w1 where ss: "set_started env request w = (request1, w1)"
    by (cases "set_started env request w") auto
  from set_started_frame(6)[OF ss] fin have f1: "req_finished request1 = 0" by simp
  show ?thesis
  proof (cases "req_origin request1 = []")
    case True
    obtain sres request2 w2 where srd: "select_random_origin env request1 w1 = (sres, request2, w2)"
      by (cases "select_random_origin env request1 w1") auto
    have f2: "req_finished request2 = 0" using select_random_origin_ts(3)[OF srd] f1 by simp
    show ?thesis
    proof (cases sres)
      case (Inl e)
      with fin ss True srd start_catch_total[OF f2, of env e w2] show ?thesis
        by (simp add: start_def)
    next
      case (Inr x)
      with fin ss True srd start_loop_total[OF f2, of env "req_origin request2" w2]
      show ?thesis by (simp add: start_def)
    qed
  next
    case False
    with fin ss start_loop_total[OF f1, of env "[]" w1] show ?thesis by (simp add: start_def)
  qed
qed

lemma submit_total:
  assumes srt: "sorted_wrt (<) (map req_event_id rs)"
    and ne: "rid \<noteq> []" "eid \<noteq> []"
    and room: "\<forall>r \<in> set rs. req_event_id r = eid \<longrightarrow> req_room_id r = rid"
  shows "submit env eid rid sz rs w \<noteq> None"
proof (cases "lower_bound rs eid < length rs \<and> req_event_id (rs ! lower_bound rs eid) = eid")
  case True
  then have "rs ! lower_bound rs eid \<in> set rs" by simp
  with room True have "req_room_id (rs ! lower_bound rs eid) = rid" by blast
  with True ne show ?thesis by (simp add: submit_def Let_def)
next
  case False
  let ?p = "lower_bound rs eid"
  let ?new0 = "new_request rid eid sz"
  have id0: "req_event_id ?new0 = eid" by (simp add: new_request_def)
  from False lower_bound_found[OF srt, of eid] have nin: "eid \<notin> req_event_id ` set rs" by simp
  have eh: "emplace_hint rs ?p ?new0 = (take ?p rs @ ?new0 # drop ?p rs, ?p)"
    using emplace_hint_new[OF srt, of ?new0 ?p] nin id0 by simp
  have len: "length (take ?p rs) = ?p" using lower_bound_le[of rs eid] by simp
  have nth: "(take ?p rs @ ?new0 # drop ?p rs) ! ?p = ?new0"
    using nth_append_length[of "take ?p rs" ?new0 "drop ?p rs"] len by simp
  have "req_finished (?new0\<lparr>req_promise := pending\<rparr>) = 0" by (simp add: new_request_def)
  from start_total[OF this, of env w] False ne eh nth show ?thesis
    by (auto simp: submit_def Let_def split: option.splits)
qed

lemma submit_step:
  assumes srt: "sorted_wrt (<) (map req_event_id rs)"
    and run: "submit env eid rid sz rs w = Some (fut, rs', w')"
  shows "sorted_wrt (<) (map req_event_id rs') \<and>
         (if eid \<in> req_event_id ` set rs
          then fut = empty_future \<and> rs' = rs \<and> w' = w
          else fut = future_of eid \<and> length rs' = Suc (length rs) \<and>
               (\<exists>new. req_event_id new = eid \<and> req_room_id new = rid \<and>
                      req_promise new \<noteq> invalid \<and>
                      rs' = take (lower_bound rs eid) rs @ new # drop (lower_bound rs eid) rs))"
proof (cases "eid \<in> req_event_id ` set rs")
  case True
  with lower_bound_found[OF srt, of eid]
  have "lower_bound rs eid < length rs \<and> req_event_id (rs ! lower_bound rs eid) = eid" by simp
  with run have "fut = empty_future \<and> rs' = rs \<and> w' = w"
    by (auto simp: submit_def Let_def split: if_splits)
  with True srt show ?thesis by simp
next
  case False
  let ?p = "lower_bound rs eid"
  let ?new0 = "new_request rid eid sz"
  have id0: "req_event_id ?new0 = eid" by (simp add: new_request_def)
  from False lower_bound_found[OF srt, of eid]
  have nf: "\<not> (?p < length rs \<and> req_event_id (rs ! ?p) = eid)" by simp
  have eh: "emplace_hint rs ?p ?new0 = (take ?p rs @ ?new0 # drop ?p rs, ?p)"
    using emplace_hint_new[OF srt, of ?new0 ?p] False id0 by simp
  have len: "length (take ?p rs) = ?p" using lower_bound_le[of rs eid] by simp
  have nth: "(take ?p rs @ ?new0 # drop ?p rs) ! ?p = ?new0"
    using nth_append_length[of "take ?p rs" ?new0 "drop ?p rs"] len by simp
  let ?request = "?new0\<lparr>req_promise := pending\<rparr>"
  from run nf eh nth obtain b request' where
    st: "start env ?request w = Some (b, request', w')"
    and fut: "fut = future_of (req_event_id ?request)"
    and rs': "rs' = (take ?p rs @ ?new0 # drop ?p rs)[?p := request']"
    by (auto simp: submit_def Let_def split: if_splits option.splits)
  from start_frame[OF st] have fr: "req_event_id request' = eid" "req_room_id request' = rid"
    "req_promise request' \<noteq> invalid"
    by (simp_all add: new_request_def)
  have rs'': "rs' = take ?p rs @ request' # drop ?p rs"
    unfolding rs' using list_update_length[of "take ?p rs" ?new0 "drop ?p rs" request'] len
    by simp
  have "sorted_wrt (<) (map req_event_id rs')"
    unfolding rs'' using insert_at_lower_bound_sorted[OF srt, of request'] False fr(1) by simp
  moreover have "length rs' = Suc (length rs)" unfolding rs'' by simp
  moreover have "fut = future_of eid" using fut by (simp add: new_request_def)
  ultimately show ?thesis using False fr rs'' by auto
qed

lemma apply_fetch_op_event_id:
  assumes "apply_fetch_op env x request w = Some (request', w')"
  shows "req_event_id request' = req_event_id request"
proof (cases x)
  case Start
  with assms obtain b where "start env request w = Some (b, request', w')"
    by (auto split: option.splits)
  from start_frame[OF this] show ?thesis by simp
next
  case Retry
  with assms obtain b where "start env (request\<lparr>req_eptr := None, req_origin := []\<rparr>) w
      = Some (b, request', w')"
    by (auto simp: retry_def split: if_splits option.splits)
  from start_frame[OF this] show ?thesis by simp
next
  case Finish
  with assms have "finish env request w = (request', w')" by simp
  from finish_frame(3)[OF this] show ?thesis .
next
  case (Handle thrown)
  define request1 where
    "request1 = (case thrown of Some e \<Rightarrow> request\<lparr>req_eptr := Some e\<rparr> | None \<Rightarrow> request)"
  have e1: "req_event_id request1 = req_event_id request"
    by (simp add: request1_def split: option.splits)
  from assms Handle obtain b where h: "handle env thrown request w = Some (b, request', w')"
    by (auto split: option.splits)
  show ?thesis
  proof (cases "req_eptr request1 = None")
    case True
    with h have "finish env request1 w = (request', w')"
      by (auto simp: handle_def Let_def request1_def[symmetric] split: prod.splits)
    from finish_frame(3)[OF this] e1 show ?thesis by simp
  next
    case False
    with h have "retry env request1 w = Some (request', w')"
      by (auto simp: handle_def Let_def request1_def[symmetric] split: option.splits)
    then obtain b' where "start env (request1\<lparr>req_eptr := None, req_origin := []\<rparr>) w
      = Some (b', request', w')"
      by (auto simp: retry_def split: if_splits option.splits)
    from start_frame[OF this] e1 show ?thesis by simp
  qed
qed

lemma sorted_wrt_erase:
  assumes "sorted_wrt P xs"
  shows "sorted_wrt P (take i xs @ drop (Suc i) xs)"
proof -
  have "xs = take i xs @ drop i xs" by simp
  with assms have a: "sorted_wrt P (take i xs @ drop i xs)" by simp
  have "set (drop (Suc i) xs) \<subseteq> set (drop i xs)"
    by (metis drop_Suc set_drop_subset tl_drop drop_drop plus_1_eq_Suc)
  moreover have "sorted_wrt P (drop (Suc i) xs)"
    using assms by (simp add: sorted_wrt_drop)
  ultimately show ?thesis using a unfolding sorted_wrt_append by blast
qed

lemma apply_requests_op_sorted:
  assumes srt: "sorted_wrt (<) (map req_event_id rs)"
    and run: "apply_requests_op env x rs w = Some (rs', w')"
  shows "sorted_wrt (<) (map req_event_id rs')"
proof (cases x)
  case (Submit eid rid sz)
  with run obtain f where "submit env eid rid sz rs w = Some (f, rs', w')"
    by (auto split: option.splits)
  from submit_step[OF srt this] show ?thesis by simp
next
  case (Worker it y)
  with run obtain r' where it: "it < length rs"
    and a: "apply_fetch_op env y (rs ! it) w = Some (r', w')" and rs': "rs' = rs[it := r']"
    by (auto split: if_splits option.splits)
  have "map req_event_id rs' = (map req_event_id rs)[it := req_event_id (rs ! it)]"
    unfolding rs' using apply_fetch_op_event_id[OF a] by (simp add: map_update)
  also have "\<dots> = map req_event_id rs" using it by (simp add: list_update_same_conv)
  finally show ?thesis using srt by simp
next
  case (Erase it)
  with run have rs': "rs' = take it rs @ drop (Suc it) rs" by (auto split: if_splits)
  have "map req_event_id rs' = take it (map req_event_id rs) @ drop (Suc it) (map req_event_id rs)"
    unfolding rs' by (simp add: take_map drop_map)
  with sorted_wrt_erase[OF srt, of it] show ?thesis by simp
qed

lemma run_requests_ops_sorted:
  "sorted_wrt (<) (map req_event_id rs) \<Longrightarrow> run_requests_ops env ops rs w = Some (rs', w') \<Longrightarrow>
     sorted_wrt (<) (map req_event_id rs')"
proof (induction ops arbitrary: rs w)
  case Nil then show ?case by simp
next
  case (Cons x xs)
  from Cons.prems(2) obtain rs1 w1 where a: "apply_requests_op env x rs w = Some (rs1, w1)"
    and r: "run_requests_ops env xs rs1 w1 = Some (rs', w')"
    by (auto split: option.splits)
  from Cons.IH[OF apply_requests_op_sorted[OF Cons.prems(1) a] r] show ?case .
qed

text \<open>
  Claim C1. After every sequence of submissions, worker operations and erasures starting
  from the empty set, no two requests of the set have the same \<open>event_id\<close>. A further
  \<open>submit\<close> with non-empty ids, and with the room of the existing request of that
  \<open>event_id\<close> if there is one, returns, and leaves this so. When a request with the
  \<open>event_id\<close> exists it returns the empty future and changes neither the set nor
  anything else; otherwise it returns a future attached to the promise of a new request
  with that \<open>event_id\<close> and room, which is the one element inserted, at its place in
  the order, next to the unchanged existing requests.
\<close>

theorem submit_at_most_one_per_event_id:
  assumes "run_requests_ops env ops [] w0 = Some (requests, w)"
  shows "distinct (map req_event_id requests) \<and>
         (\<forall>eid rid sz.
            rid \<noteq> [] \<and> eid \<noteq> [] \<and>
            (\<forall>r \<in> set requests. req_event_id r = eid \<longrightarrow> req_room_id r = rid) \<longrightarrow>
              submit env eid rid sz requests w \<noteq> None) \<and>
         (\<forall>eid rid sz fut requests' w'.
            submit env eid rid sz requests w = Some (fut, requests', w') \<longrightarrow>
              distinct (map req_event_id requests') \<and>
              (if eid \<in> req_event_id ` set requests
               then fut = empty_future \<and> requests' = requests \<and> w' = w
               else fut = future_of eid \<and> length requests' = Suc (length requests) \<and>
                    (\<exists>new. req_event_id new = eid \<and> req_room_id new = rid \<and>
                       req_promise new \<noteq> invalid \<and>
                       requests' = take (lower_bound requests eid) requests @ new #
                                     drop (lower_bound requests eid) requests)))"
proof -
  have srt: "sorted_wrt (<) (map req_event_id requests)"
    using run_requests_ops_sorted[OF _ assms] by simp
  have d: "\<And>rs. sorted_wrt (<) (map req_event_id rs) \<Longrightarrow> distinct (map req_event_id rs)"
    using strict_sorted_imp_sorted by (simp add: strict_sorted_iff)
  have 1: "distinct (map req_event_id requests)" using d[OF srt] .
  have 2: "\<forall>eid rid sz fut requests' w'.
            submit env eid rid sz requests w = Some (fut, requests', w') \<longrightarrow>
              distinct (map req_event_id requests') \<and>
              (if eid \<in> req_event_id ` set requests
               then fut = empty_future \<and> requests' = requests \<and> w' = w
               else fut = future_of eid \<and> length requests' = Suc (length requests) \<and>
                    (\<exists>new. req_event_id new = eid \<and> req_room_id new = rid \<and>
                       req_promise new \<noteq> invalid \<and>
                       requests' = take (lower_bound requests eid) requests @ new #
                                     drop (lower_bound requests eid) requests))"
  proof (intro allI impI)
    fix eid rid sz fut requests' w'
    assume a: "submit env eid rid sz requests w = Some (fut, requests', w')"
    from submit_step[OF srt a] d[of requests']
    show "distinct (map req_event_id requests') \<and>
              (if eid \<in> req_event_id ` set requests
               then fut = empty_future \<and> requests' = requests \<and> w' = w
               else fut = future_of eid \<and> length requests' = Suc (length requests) \<and>
                    (\<exists>new. req_event_id new = eid \<and> req_room_id new = rid \<and>
                       req_promise new \<noteq> invalid \<and>
                       requests' = take (lower_bound requests eid) requests @ new #
                                     drop (lower_bound requests eid) requests))"
      by blast
  qed
  have 3: "\<forall>eid rid sz.
            rid \<noteq> [] \<and> eid \<noteq> [] \<and>
            (\<forall>r \<in> set requests. req_event_id r = eid \<longrightarrow> req_room_id r = rid) \<longrightarrow>
              submit env eid rid sz requests w \<noteq> None"
    using submit_total[OF srt] by blast
  from 1 2 3 show ?thesis by blast
qed

theorem submit_at_most_one_per_event_id_witness:
  "run_requests_ops example_env [Submit ''$X'' ''!r'' 8192, Submit ''$A'' ''!r'' 8192] [] world0 =
     Some (example_requests, example_world) \<and>
   submit example_env ''$X'' ''!r'' 8192 example_requests example_world =
     Some (empty_future, example_requests, example_world) \<and>
   distinct (map req_event_id example_requests)"
proof -
  have run: "run_requests_ops example_env [Submit ''$X'' ''!r'' 8192, Submit ''$A'' ''!r'' 8192] [] world0 =
     Some (example_requests, example_world)"
    by (simp add: submit_def lower_bound_def emplace_hint_def
        start_def set_started_def ircd_time_def start_opts_def
        start_catch_def finish_def select_random_origin_def origins_random_def proffer_def
        select_origin_def example_env_def new_request_def world0_def Let_def
        example_requests_def example_world_def insert_commute)
  have dup: "submit example_env ''$X'' ''!r'' 8192 example_requests example_world =
     Some (empty_future, example_requests, example_world)"
    by (simp add: submit_def lower_bound_def example_requests_def)
  from submit_at_most_one_per_event_id[OF run] run dup show ?thesis by simp
qed

section \<open>Response validation\<close>

text \<open>
  Claim C3. With \<open>check.signature\<close> enabled, a response whose event is signed by its
  origin \<open>remote.org\<close> with key \<open>ed25519:1\<close>, where that key is cached and the
  signature verifies, is rejected all the same: the signatures object has no member named
  \<open>server\<close>, so the lookup throws before the cache is consulted.
\<close>

theorem check_response_rejects_verified_response:
  "check_response default_conf example_check_env (new_request ''!r'' ''$A'' 8192)
     (example_event ''$A'') = Inl (json_error json_not_found) \<and>
   event_origin (example_event ''$A'') = Inr ''remote.org'' \<and>
   ev_signatures (example_event ''$A'') = Some [(''remote.org'', [(''ed25519:1'', ''c2ln'')])] \<and>
   keys_cache_has example_check_env ''remote.org'' ''ed25519:1'' \<and>
   m_verify example_check_env (example_event ''$A'') ''remote.org''"
  by (simp add: check_response_def default_conf_def example_check_env_def example_event_def
      event_origin_def new_request_def)

end
